theory Spec2Isabelle
  imports Main "HOL-Library.Word" "HOL-Library.Monad_Syntax"
begin

unbundle bit_operations_syntax

section \<open>Data model of And64InlineHook.cpp\<close>

text \<open>
  Addresses are 64-bit words (\<open>int64_t\<close>, \<open>uintptr_t\<close> and pointers alike), instructions are
  32-bit words. The process memory is one store of \<open>uint32_t\<close> objects keyed by the byte
  address of the object; the hooked function, the trampoline buffer and every literal live
  in this one store, so a write through one pointer is seen through every other.
  A result \<open>None\<close> stands for an execution the C++ gives no meaning to (an index outside
  \<open>dat\<close>) or for a padding loop that does not end.
\<close>

type_synonym memory = "64 word \<Rightarrow> 32 word"

definition A64_MAX_INSTRUCTIONS :: nat where
  "A64_MAX_INSTRUCTIONS = 5"

definition A64_MAX_REFERENCES :: nat where
  "A64_MAX_REFERENCES = A64_MAX_INSTRUCTIONS * 2"

definition A64_NOP :: "32 word" where
  "A64_NOP = 0xd503201f"

text \<open>\<open>struct fix_info\<close>: \<open>bp = 0\<close> is the \<open>NULL\<close> that marks a free slot.\<close>

record fix_info =
  bp :: "64 word"
  ls :: "32 word"
  ad :: "32 word"

text \<open>\<open>struct insns_info\<close>: the union \<open>insu/ins/insp\<close> is one 64-bit word.\<close>

record insns_info =
  ins :: "64 word"
  fmap :: "fix_info list"

record a64_context =
  basep :: "64 word"
  endp :: "64 word"
  dat :: "insns_info list"

text \<open>
  The cursors \<open>*inpp\<close> and \<open>*outpp\<close>, the context \<open>*ctxp\<close> and the memory they point
  into: what a rewriter reads and updates.
\<close>

record reloc =
  inp :: "64 word"
  outp :: "64 word"
  ctx :: a64_context
  mem :: memory

definition llabs :: "64 word \<Rightarrow> 64 word" where
  "llabs x = (if x <s 0 then - x else x)"

text \<open>\<open>memcpy\<close> of an \<open>int64_t\<close> to \<open>a\<close>, little-endian as on AArch64 Android.\<close>

definition store64 :: "memory \<Rightarrow> 64 word \<Rightarrow> 64 word \<Rightarrow> memory" where
  "store64 m a v = m(a := ucast v, a + 4 := ucast (drop_bit 32 v))"

subsection \<open>struct context\<close>

definition is_in_fixing_range :: "a64_context \<Rightarrow> 64 word \<Rightarrow> bool" where
  "is_in_fixing_range c absolute_addr \<longleftrightarrow> basep c \<le>s absolute_addr \<and> absolute_addr <s endp c"

text \<open>The division is unsigned: \<open>sizeof(uint32_t)\<close> is a \<open>size_t\<close>.\<close>

definition get_ref_ins_index :: "a64_context \<Rightarrow> 64 word \<Rightarrow> 64 word" where
  "get_ref_ins_index c absolute_addr = (absolute_addr - basep c) div 4"

definition reset_current_ins :: "a64_context \<Rightarrow> 64 word \<Rightarrow> 64 word \<Rightarrow> a64_context" where
  "reset_current_ins c idx out =
     c\<lparr>dat := (dat c)[unat idx := (dat c ! unat idx)\<lparr>ins := out\<rparr>]\<rparr>"

definition dat_at :: "a64_context \<Rightarrow> 64 word \<Rightarrow> insns_info option" where
  "dat_at c idx = (if unat idx < length (dat c) then Some (dat c ! unat idx) else None)"

definition get_and_set_current_index :: "a64_context \<Rightarrow> 64 word \<Rightarrow> 64 word \<Rightarrow> (64 word \<times> a64_context) option" where
  "get_and_set_current_index c i out =
     (let current_idx = get_ref_ins_index c i in
      if unat current_idx < length (dat c)
      then Some (current_idx, reset_current_ins c current_idx out)
      else None)"

fun insert_fmap :: "fix_info list \<Rightarrow> fix_info \<Rightarrow> fix_info list" where
  "insert_fmap [] e = []"
| "insert_fmap (f # fs) e = (if bp f = 0 then e # fs else f # insert_fmap fs e)"

definition insert_fix_map :: "a64_context \<Rightarrow> 64 word \<Rightarrow> 64 word \<Rightarrow> 32 word \<Rightarrow> 32 word \<Rightarrow> a64_context option" where
  "insert_fix_map c idx b l a =
     (if unat idx < length (dat c)
      then Some (c\<lparr>dat := (dat c)[unat idx := (dat c ! unat idx)
                  \<lparr>fmap := insert_fmap (fmap (dat c ! unat idx)) \<lparr>bp = b, ls = l, ad = a\<rparr>\<rparr>]\<rparr>)
      else None)"

text \<open>
  The loop of \<open>process_fix_map\<close> over one \<open>fmap\<close>: it stops at the first free slot,
  ORs the displacement to \<open>tgt\<close> into the word at \<open>bp\<close> and frees the slot.
\<close>

fun process_fmap :: "64 word \<Rightarrow> fix_info list \<Rightarrow> memory \<Rightarrow> fix_info list \<times> memory" where
  "process_fmap tgt [] m = ([], m)"
| "process_fmap tgt (f # fs) m =
     (if bp f = 0 then (f # fs, m)
      else let m' = m(bp f := m (bp f) OR
                      (push_bit (unat (ls f)) (signed_drop_bit 2 (ucast (tgt - bp f) :: 32 word)) AND ad f));
               r = process_fmap tgt fs m'
           in (f\<lparr>bp := 0\<rparr> # fst r, snd r))"

text \<open>\<open>idx\<close> is always the index that \<open>get_and_set_current_index\<close> has just checked.\<close>

definition process_fix_map :: "64 word \<Rightarrow> reloc \<Rightarrow> reloc" where
  "process_fix_map idx s =
     (let d = dat (ctx s) ! unat idx;
          r = process_fmap (ins d) (fmap d) (mem s)
      in s\<lparr>ctx := (ctx s)\<lparr>dat := (dat (ctx s))[unat idx := d\<lparr>fmap := fst r\<rparr>]\<rparr>, mem := snd r\<rparr>)"

section \<open>The rewriters\<close>

text \<open>
  The statements every rewriter is built from: \<open>(*outpp)[k] = w\<close>, the \<open>memcpy\<close> of an
  \<open>int64_t\<close> to \<open>*outpp + k\<close>, \<open>*outpp += k\<close>, and the alignment step
  \<open>(*outpp)[0] = A64_NOP; ctxp->reset_current_ins(current_idx, ++(*outpp))\<close>.
\<close>

definition put :: "nat \<Rightarrow> 32 word \<Rightarrow> reloc \<Rightarrow> reloc" where
  "put k w s = s\<lparr>mem := (mem s)(outp s + 4 * of_nat k := w)\<rparr>"

definition put64 :: "nat \<Rightarrow> 64 word \<Rightarrow> reloc \<Rightarrow> reloc" where
  "put64 k v s = s\<lparr>mem := store64 (mem s) (outp s + 4 * of_nat k) v\<rparr>"

definition advance :: "nat \<Rightarrow> reloc \<Rightarrow> reloc" where
  "advance k s = s\<lparr>outp := outp s + 4 * of_nat k\<rparr>"

definition prepend_nop :: "64 word \<Rightarrow> reloc \<Rightarrow> reloc" where
  "prepend_nop current_idx s =
     (let s1 = advance 1 (put 0 A64_NOP s)
      in s1\<lparr>ctx := reset_current_ins (ctx s1) current_idx (outp s1)\<rparr>)"

text \<open>
  The block \<open>if (special_fix_type) { ... }\<close> that \<open>__fix_branch_imm\<close>,
  \<open>__fix_cond_comp_test_branch\<close> and the ADR case of \<open>__fix_pcreladdr\<close> share: a target
  at or before the current instruction is resolved from its recorded output address
  (shifted right by \<open>sh\<close>: 2 for the branches, 0 for ADR), a later one is filed with
  \<open>insert_fix_map\<close> and the offset is 0 for now.
\<close>

definition fix_in_window :: "64 word \<Rightarrow> 64 word \<Rightarrow> nat \<Rightarrow> 32 word \<Rightarrow> 32 word \<Rightarrow> reloc \<Rightarrow> (64 word \<times> reloc) option" where
  "fix_in_window current_idx absolute_addr sh l a s =
     (let ref_idx = get_ref_ins_index (ctx s) absolute_addr in
      if ref_idx \<le>s current_idx then
        do { d \<leftarrow> dat_at (ctx s) ref_idx;
             Some (signed_drop_bit sh (ins d - outp s), s) }
      else
        do { c \<leftarrow> insert_fix_map (ctx s) ref_idx (outp s) l a;
             Some (0, s\<lparr>ctx := c\<rparr>) })"

subsection \<open>\<open>__fix_branch_imm\<close>: B and BL\<close>

definition op_b :: "32 word" where "op_b = 0x14000000"
definition op_bl :: "32 word" where "op_bl = 0x94000000"

text \<open>\<open>absolute_addr\<close> of a B/BL at \<open>pc\<close>: the sign-extended \<open>imm26\<close>, times 4, added.\<close>

definition branch_imm_target :: "64 word \<Rightarrow> 32 word \<Rightarrow> 64 word" where
  "branch_imm_target pc i = pc + scast (signed_drop_bit (6 - 2) (push_bit 6 i))"

text \<open>The two absolute jumps through the literal, with their opposite alignment tests.\<close>

definition far_b :: "64 word \<Rightarrow> 64 word \<Rightarrow> reloc \<Rightarrow> reloc" where
  "far_b current_idx absolute_addr s =
     (let b_aligned = ((outp s + 4 * 2) AND 7 = 0);
          s1 = (if \<not> b_aligned then prepend_nop current_idx s else s)
      in advance 4 (put64 2 absolute_addr (put 1 0xd61f0220 (put 0 0x58000051 s1))))"

definition far_bl :: "64 word \<Rightarrow> 64 word \<Rightarrow> reloc \<Rightarrow> reloc" where
  "far_bl current_idx absolute_addr s =
     (let b_aligned = ((outp s + 4 * 2) AND 7 = 0);
          s1 = (if b_aligned then prepend_nop current_idx s else s)
      in advance 5 (put64 3 absolute_addr
           (put 2 0xd61f0220 (put 1 0x1000009e (put 0 0x58000071 s1)))))"

definition fix_branch_imm :: "reloc \<Rightarrow> (bool \<times> reloc) option" where
  "fix_branch_imm s0 =
    (let i = mem s0 (inp s0); opc = i AND 0xfc000000 in
     if opc = op_b \<or> opc = op_bl then
       do {
         (current_idx, c) \<leftarrow> get_and_set_current_index (ctx s0) (inp s0) (outp s0);
         let s = s0\<lparr>ctx := c\<rparr>;
         let absolute_addr = branch_imm_target (inp s) i;
         let new_pc_offset = signed_drop_bit 2 (absolute_addr - outp s);
         let special_fix_type = is_in_fixing_range (ctx s) absolute_addr;
         s1 \<leftarrow>
           (if \<not> special_fix_type \<and> drop_bit 1 0x03ffffff \<le>s llabs new_pc_offset then
              Some (if opc = op_b then far_b current_idx absolute_addr s
                    else far_bl current_idx absolute_addr s)
            else do {
              (off, s') \<leftarrow>
                (if special_fix_type
                 then fix_in_window current_idx absolute_addr 2 0 0x03ffffff s
                 else Some (new_pc_offset, s));
              Some (advance 1 (put 0 (opc OR ucast (off AND 0x03ffffff)) s'))
            });
         Some (True, process_fix_map current_idx (s1\<lparr>inp := inp s1 + 4\<rparr>))
       }
     else Some (False, s0))"

subsection \<open>\<open>__fix_cond_comp_test_branch\<close>: B.cond, CBZ/CBNZ, TBZ/TBNZ\<close>

text \<open>\<open>__builtin_clz\<close> on a 32-bit word.\<close>

definition builtin_clz :: "32 word \<Rightarrow> nat" where
  "builtin_clz w = length (takeWhile (\<lambda>k. \<not> bit w k) (rev [0..<32]))"

text \<open>The recognition chain: the \<open>lmask\<close> it selects, or \<open>None\<close> where it returns false.\<close>

definition cond_lmask :: "32 word \<Rightarrow> 32 word option" where
  "cond_lmask i =
     (if i AND 0xff000010 \<noteq> 0x54000000 then
        if i AND 0x7f000000 \<noteq> 0x34000000 \<and> i AND 0x7f000000 \<noteq> 0x35000000 then
          if i AND 0x7f000000 \<noteq> 0x36000000 \<and> i AND 0x7f000000 \<noteq> 0x37000000 then None
          else Some 0xfff8001f
        else Some 0xff00001f
      else Some 0xff00001f)"

definition cond_target :: "32 word \<Rightarrow> 64 word \<Rightarrow> 32 word \<Rightarrow> 64 word" where
  "cond_target lmask pc i =
     (let msb = builtin_clz (NOT lmask)
      in pc + scast (signed_drop_bit (5 - 2 + msb) (push_bit msb (i AND NOT lmask))))"

definition far_cond :: "32 word \<Rightarrow> 32 word \<Rightarrow> 64 word \<Rightarrow> 64 word \<Rightarrow> reloc \<Rightarrow> reloc" where
  "far_cond lmask i current_idx absolute_addr s =
     (let s1 = (if (outp s + 4 * 4) AND 7 \<noteq> 0 then prepend_nop current_idx s else s)
      in advance 6 (put64 4 absolute_addr (put 3 0xd61f0220 (put 2 0x58000051 (put 1 0x14000005
           (put 0 ((push_bit 5 (drop_bit 2 8) AND NOT lmask) OR (i AND lmask)) s1))))))"

definition fix_cond_comp_test_branch :: "reloc \<Rightarrow> (bool \<times> reloc) option" where
  "fix_cond_comp_test_branch s0 =
    (let i = mem s0 (inp s0) in
     case cond_lmask i of
       None \<Rightarrow> Some (False, s0)
     | Some lmask \<Rightarrow>
       do {
         (current_idx, c) \<leftarrow> get_and_set_current_index (ctx s0) (inp s0) (outp s0);
         let s = s0\<lparr>ctx := c\<rparr>;
         let absolute_addr = cond_target lmask (inp s) i;
         let new_pc_offset = signed_drop_bit 2 (absolute_addr - outp s);
         let special_fix_type = is_in_fixing_range (ctx s) absolute_addr;
         s1 \<leftarrow>
           (if \<not> special_fix_type \<and> ucast (drop_bit (5 + 1) (NOT lmask)) \<le>s llabs new_pc_offset then
              Some (far_cond lmask i current_idx absolute_addr s)
            else do {
              (off, s') \<leftarrow>
                (if special_fix_type
                 then fix_in_window current_idx absolute_addr 2 5 (NOT lmask) s
                 else Some (new_pc_offset, s));
              Some (advance 1 (put 0 ((ucast (push_bit 5 off) AND NOT lmask) OR (i AND lmask)) s'))
            });
         Some (True, process_fix_map current_idx (s1\<lparr>inp := inp s1 + 4\<rparr>))
       })"

subsection \<open>\<open>__fix_loadlit\<close>: LDR (literal), LDRSW (literal), PRFM (literal)\<close>

text \<open>
  The recognition chain after the PRFM test: the opcode \<open>mask\<close> and the alignment mask
  \<open>faligned\<close> it selects, or \<open>None\<close> where it returns false.
\<close>

definition loadlit_class :: "32 word \<Rightarrow> (32 word \<times> 64 word) option" where
  "loadlit_class i =
     (let faligned = (if i AND 0x40000000 \<noteq> 0 then 7 else 3) in
      if i AND 0xbf000000 \<noteq> 0x18000000 then
        let faligned = (if faligned \<noteq> 7 then (if i AND 0x80000000 \<noteq> 0 then 15 else 3) else faligned) in
        if i AND 0x3f000000 \<noteq> 0x1c000000 then
          if i AND 0xff000000 \<noteq> 0x98000000 then None
          else Some (0xff000000, 7)
        else Some (0x3f000000, faligned)
      else Some (0xbf000000, faligned))"

text \<open>
  \<open>& ~3u\<close> makes the offset an \<open>unsigned int\<close>, which the addition to the \<open>int64_t\<close>
  zero-extends.
\<close>

definition loadlit_target :: "64 word \<Rightarrow> 32 word \<Rightarrow> 64 word" where
  "loadlit_target pc i = pc + ucast (signed_drop_bit (8 + 5 - 2) (push_bit 8 i) AND NOT 3)"

text \<open>\<open>while ((reinterpret_cast<uint64_t>(*outpp + 2) & faligned) != 0u) *(*outpp)++ = A64_NOP;\<close>\<close>

partial_function (option) pad_inline :: "64 word \<Rightarrow> reloc \<Rightarrow> reloc option" where
  "pad_inline faligned s =
     (if (outp s + 4 * 2) AND faligned \<noteq> 0
      then pad_inline faligned (advance 1 (put 0 A64_NOP s))
      else Some s)"

declare pad_inline.simps [code]

text \<open>The loop of the re-immediated form: NOPs until the new offset is aligned.\<close>

partial_function (option) pad_reimm :: "64 word \<Rightarrow> 64 word \<Rightarrow> 64 word \<Rightarrow> reloc \<Rightarrow> (64 word \<times> reloc) option" where
  "pad_reimm absolute_addr faligned new_pc_offset s =
     (if new_pc_offset AND faligned \<noteq> 0
      then pad_reimm absolute_addr faligned
             (signed_drop_bit 2 (absolute_addr - outp (advance 1 (put 0 A64_NOP s))))
             (advance 1 (put 0 A64_NOP s))
      else Some (new_pc_offset, s))"

declare pad_reimm.simps [code]

text \<open>
  \<open>memcpy(*outpp + 2, absolute_addr, faligned + 1)\<close>: \<open>n\<close> words read from the memory
  \<open>m0\<close> as it is before the copy.
\<close>

fun copy_words :: "nat \<Rightarrow> 64 word \<Rightarrow> 64 word \<Rightarrow> memory \<Rightarrow> memory \<Rightarrow> memory" where
  "copy_words 0 dst src m0 m = m"
| "copy_words (Suc n) dst src m0 m = copy_words n (dst + 4) (src + 4) m0 (m(dst := m0 src))"

definition inline_literal :: "32 word \<Rightarrow> 32 word \<Rightarrow> 64 word \<Rightarrow> 64 word \<Rightarrow> 64 word \<Rightarrow> reloc \<Rightarrow> reloc option" where
  "inline_literal msk i faligned current_idx absolute_addr s =
     do {
       s1 \<leftarrow> pad_inline faligned s;
       let s2 = s1\<lparr>ctx := reset_current_ins (ctx s1) current_idx (outp s1)\<rparr>;
       let ns = (faligned + 1) div 4;
       let s3 = put 1 (0x14000001 + ucast ns)
                  (put 0 ((push_bit 5 (drop_bit 2 8) AND NOT msk) OR (i AND 0xff00001f)) s2);
       let s4 = s3\<lparr>mem := copy_words (unat ns) (outp s3 + 4 * 2) absolute_addr (mem s3) (mem s3)\<rparr>;
       Some (advance (2 + unat ns) s4)
     }"

definition reimm_literal :: "32 word \<Rightarrow> 32 word \<Rightarrow> 64 word \<Rightarrow> 64 word \<Rightarrow> 64 word \<Rightarrow> 64 word \<Rightarrow> reloc \<Rightarrow> reloc option" where
  "reimm_literal msk i faligned current_idx absolute_addr new_pc_offset s =
     do {
       (off, s1) \<leftarrow> pad_reimm absolute_addr (drop_bit 2 faligned) new_pc_offset s;
       let s2 = s1\<lparr>ctx := reset_current_ins (ctx s1) current_idx (outp s1)\<rparr>;
       Some (advance 1 (put 0 ((ucast (push_bit 5 off) AND NOT msk) OR (i AND 0xff00001f)) s2))
     }"

definition fix_loadlit :: "reloc \<Rightarrow> (bool \<times> reloc) option" where
  "fix_loadlit s0 =
    (let i = mem s0 (inp s0) in
     if i AND 0xff000000 = 0xd8000000 then
       do {
         (current_idx, c) \<leftarrow> get_and_set_current_index (ctx s0) (inp s0) (outp s0);
         let s = process_fix_map current_idx (s0\<lparr>ctx := c\<rparr>);
         Some (True, s\<lparr>inp := inp s + 4\<rparr>)
       }
     else
       case loadlit_class i of
         None \<Rightarrow> Some (False, s0)
       | Some (msk, faligned) \<Rightarrow>
         do {
           (current_idx, c) \<leftarrow> get_and_set_current_index (ctx s0) (inp s0) (outp s0);
           let s = s0\<lparr>ctx := c\<rparr>;
           let absolute_addr = loadlit_target (inp s) i;
           let new_pc_offset = signed_drop_bit 2 (absolute_addr - outp s);
           let special_fix_type = is_in_fixing_range (ctx s) absolute_addr;
           s1 \<leftarrow>
             (if special_fix_type \<or>
                 ucast (drop_bit (5 + 1) (NOT 0xff00001f :: 32 word)) \<le> llabs new_pc_offset + (faligned + 1 - 4) div 4
              then inline_literal msk i faligned current_idx absolute_addr s
              else reimm_literal msk i faligned current_idx absolute_addr new_pc_offset s);
           Some (True, process_fix_map current_idx (s1\<lparr>inp := inp s1 + 4\<rparr>))
         })"

subsection \<open>\<open>__fix_pcreladdr\<close>: ADR and ADRP\<close>

definition op_adr :: "32 word" where "op_adr = 0x10000000"
definition op_adrp :: "32 word" where "op_adrp = 0x90000000"

text \<open>
  In both targets \<open>& ~3u\<close> turns the sign-extended \<open>immhi\<close> into an \<open>unsigned int\<close>. For
  ADR it is zero-extended by the OR with the \<open>int64_t lsb_bytes\<close>; for ADRP \<open>lsb_bytes\<close>
  is an \<open>int32_t\<close>, so the OR and the shift by 12 are 32-bit unsigned and the sum with
  the page of \<open>pc\<close> zero-extends the result.
\<close>

definition adr_target :: "64 word \<Rightarrow> 32 word \<Rightarrow> 64 word" where
  "adr_target pc i =
     (let lsb_bytes = ucast (drop_bit 30 (push_bit 1 i)) :: 64 word
      in pc + (ucast (signed_drop_bit (8 + 5 - 2) (push_bit 8 i) AND NOT 3) OR lsb_bytes))"

definition adrp_target :: "64 word \<Rightarrow> 32 word \<Rightarrow> 64 word" where
  "adrp_target pc i =
     (let lsb_bytes = drop_bit 30 (push_bit 1 i) :: 32 word
      in (pc AND NOT 0xfff) +
         ucast (push_bit 12 ((signed_drop_bit (8 + 5 - 2) (push_bit 8 i) AND NOT 3) OR lsb_bytes)))"

text \<open>
  The page base as the comment above the ADRP case documents it,
  \<open>(PC & ~0xFFF) + SignExtend(imm, 21) << 12\<close>, with \<open>imm = immhi:immlo\<close>. It is what the
  instruction computes when it runs, and what \<open>adrp_target\<close> is compared with.
\<close>

definition adrp_imm :: "32 word \<Rightarrow> 21 word" where
  "adrp_imm i = ucast (push_bit 2 (drop_bit 5 i) OR (drop_bit 29 i AND 3))"

definition adrp_documented_target :: "64 word \<Rightarrow> 32 word \<Rightarrow> 64 word" where
  "adrp_documented_target pc i = (pc AND NOT 0xfff) + push_bit 12 (scast (adrp_imm i))"

text \<open>\<open>LDR Xd, #8; B #12; <absolute_addr>\<close>, the literal 8-aligned by one NOP if need be.\<close>

definition ldr_literal :: "32 word \<Rightarrow> 64 word \<Rightarrow> 64 word \<Rightarrow> reloc \<Rightarrow> reloc" where
  "ldr_literal i current_idx absolute_addr s =
     (let s1 = (if (outp s + 4 * 2) AND 7 \<noteq> 0 then prepend_nop current_idx s else s)
      in advance 4 (put64 2 absolute_addr (put 1 0x14000003
           (put 0 (0x58000000 OR (push_bit 5 (drop_bit 2 8) AND NOT 0x9f000000) OR (i AND 0x0000001f)) s1))))"

definition fix_pcreladdr :: "reloc \<Rightarrow> (bool \<times> reloc) option" where
  "fix_pcreladdr s0 =
    (let i = mem s0 (inp s0) in
     if i AND 0x9f000000 = op_adr then
       do {
         (current_idx, c) \<leftarrow> get_and_set_current_index (ctx s0) (inp s0) (outp s0);
         let s = s0\<lparr>ctx := c\<rparr>;
         let absolute_addr = adr_target (inp s) i;
         let new_pc_offset = absolute_addr - outp s;
         let special_fix_type = is_in_fixing_range (ctx s) absolute_addr;
         s1 \<leftarrow>
           (if \<not> special_fix_type \<and> drop_bit 1 0x001fffff \<le>s llabs new_pc_offset then
              Some (ldr_literal i current_idx absolute_addr s)
            else do {
              (off, s') \<leftarrow>
                (if special_fix_type
                 then fix_in_window current_idx (absolute_addr AND NOT 3) 0 5 0x00ffffff s
                 else Some (new_pc_offset, s));
              Some (advance 1 (put 0 ((ucast (push_bit (5 - 2) off) AND 0x00ffffff) OR (i AND 0xff00001f)) s'))
            });
         let s2 = process_fix_map current_idx s1;
         Some (True, s2\<lparr>inp := inp s2 + 4\<rparr>)
       }
     else if i AND 0x9f000000 = op_adrp then
       do {
         (current_idx, c) \<leftarrow> get_and_set_current_index (ctx s0) (inp s0) (outp s0);
         let s = s0\<lparr>ctx := c\<rparr>;
         let absolute_addr = adrp_target (inp s) i;
         let s1 = (if is_in_fixing_range (ctx s) absolute_addr
                   then advance 1 (put 0 i s)
                   else ldr_literal i current_idx absolute_addr s);
         let s2 = process_fix_map current_idx s1;
         Some (True, s2\<lparr>inp := inp s2 + 4\<rparr>)
       }
     else Some (False, s0))"

section \<open>\<open>__fix_instructions\<close>: the driver\<close>

text \<open>One turn of the \<open>while\<close> loop: the first rewriter that returns true, else a plain copy.\<close>

definition fix_one :: "reloc \<Rightarrow> reloc option" where
  "fix_one s =
     do {
       (h1, s1) \<leftarrow> fix_branch_imm s;
       if h1 then Some s1 else do {
       (h2, s2) \<leftarrow> fix_cond_comp_test_branch s;
       if h2 then Some s2 else do {
       (h3, s3) \<leftarrow> fix_loadlit s;
       if h3 then Some s3 else do {
       (h4, s4) \<leftarrow> fix_pcreladdr s;
       if h4 then Some s4 else do {
         (current_idx, c) \<leftarrow> get_and_set_current_index (ctx s) (inp s) (outp s);
         let s5 = process_fix_map current_idx (s\<lparr>ctx := c\<rparr>);
         let s6 = advance 1 (put 0 (mem s5 (inp s5)) s5);
         Some (s6\<lparr>inp := inp s6 + 4\<rparr>)
       }}}}
     }"

fun fix_loop :: "nat \<Rightarrow> reloc \<Rightarrow> reloc option" where
  "fix_loop 0 s = Some s"
| "fix_loop (Suc n) s = (case fix_one s of None \<Rightarrow> None | Some s' \<Rightarrow> fix_loop n s')"

text \<open>The jump back to \<open>callback = inp\<close>, the first word after the window.\<close>

definition tail_jump :: "reloc \<Rightarrow> reloc" where
  "tail_jump s =
     (let callback = inp s;
          pc_offset = signed_drop_bit 2 (callback - outp s)
      in if drop_bit 1 0x03ffffff \<le> llabs pc_offset then
           let s1 = (if (outp s + 4 * 2) AND 7 \<noteq> 0 then advance 1 (put 0 A64_NOP s) else s)
           in advance 4 (put64 2 callback (put 1 0xd61f0220 (put 0 0x58000051 s1)))
         else advance 1 (put 0 (0x14000000 OR ucast (pc_offset AND 0x03ffffff)) s))"

text \<open>
  \<open>__fix_instructions(inp, count, outp)\<close> on the memory \<open>m\<close>. The result is the state at
  the \<open>__flush_cache\<close> call: the memory, the final cursors and the context (a local of the
  C++ function, kept here so that its \<open>fmap\<close> lists can be inspected).
  \<open>init_context\<close> is the context after the \<open>memset\<close>.
\<close>

definition init_context :: "64 word \<Rightarrow> 32 word \<Rightarrow> a64_context" where
  "init_context i count =
     \<lparr>basep = i, endp = i + 4 * scast count,
      dat = replicate A64_MAX_INSTRUCTIONS
              \<lparr>ins = 0, fmap = replicate A64_MAX_REFERENCES \<lparr>bp = 0, ls = 0, ad = 0\<rparr>\<rparr>\<rparr>"

definition fix_instructions :: "memory \<Rightarrow> 64 word \<Rightarrow> 32 word \<Rightarrow> 64 word \<Rightarrow> reloc option" where
  "fix_instructions m i count out =
     map_option tail_jump
       (fix_loop (nat (sint count)) \<lparr>inp = i, outp = out, ctx = init_context i count, mem = m\<rparr>)"

section \<open>\<open>A64HookFunctionV\<close>: the installer\<close>

text \<open>
  \<open>__make_rwx\<close> is the platform's \<open>mprotect\<close>: the model takes its outcome as the
  parameter \<open>make_rwx\<close>, from the address and the length to the return code (0 on
  success). The result is the returned pointer and the memory.
\<close>

definition A64HookFunctionV ::
  "(64 word \<Rightarrow> 64 word \<Rightarrow> int) \<Rightarrow> memory \<Rightarrow> 64 word \<Rightarrow> 64 word \<Rightarrow> 64 word \<Rightarrow> 64 word \<Rightarrow> (64 word \<times> memory) option" where
  "A64HookFunctionV make_rwx m symbol replace rwx rwx_size =
     (let trampoline = rwx; original = symbol;
          pc_offset = signed_drop_bit 2 (replace - symbol)
      in if drop_bit 1 0x03ffffff \<le> llabs pc_offset then
           let count = (if (original + 4 * 2) AND 7 \<noteq> 0 then 5 else 4) :: 32 word in
           if trampoline \<noteq> 0 \<and> rwx_size < ucast (count * 10) then Some (0, m)
           else do {
             m1 \<leftarrow> (if trampoline \<noteq> 0
                    then map_option mem (fix_instructions m original count trampoline)
                    else Some m);
             if make_rwx original (5 * 4) = 0 then
               let (m2, original') = (if count = 5 then (m1(original := A64_NOP), original + 4)
                                      else (m1, original));
                   m3 = store64 (m2(original' := 0x58000051, original' + 4 := 0xd61f0220))
                          (original' + 4 * 2) replace
               in Some (trampoline, m3)
             else Some (0, m1)
           }
         else
           if trampoline \<noteq> 0 \<and> rwx_size < 1 * 10 then Some (0, m)
           else do {
             m1 \<leftarrow> (if trampoline \<noteq> 0
                    then map_option mem (fix_instructions m original 1 trampoline)
                    else Some m);
             if make_rwx original (1 * 4) = 0 then
               Some (trampoline, m1(original := 0x14000000 OR ucast (pc_offset AND 0x03ffffff)))
             else Some (0, m1)
           })"

text \<open>
  The number of instructions the installer displaces: 1 for the short patch, else 4 or 5
  by the alignment of \<open>original + 2\<close>.
\<close>

definition hook_count :: "64 word \<Rightarrow> 64 word \<Rightarrow> 32 word" where
  "hook_count symbol replace =
     (if drop_bit 1 0x03ffffff \<le> llabs (signed_drop_bit 2 (replace - symbol))
      then (if (symbol + 4 * 2) AND 7 \<noteq> 0 then 5 else 4) else 1)"

section \<open>Notions used in the proofs\<close>

text \<open>\<open>k\<close> NOPs written at the cursor, as both padding loops do.\<close>

fun nops :: "nat \<Rightarrow> reloc \<Rightarrow> reloc" where
  "nops 0 s = s"
| "nops (Suc k) s = nops k (advance 1 (put 0 A64_NOP s))"

text \<open>
  The context of a window of \<open>n\<close> instructions: \<open>endp\<close> is \<open>n\<close> words after \<open>basep\<close>,
  which is 4-aligned, and \<open>dat\<close> has its \<open>A64_MAX_INSTRUCTIONS\<close> entries.
\<close>

definition window_ok :: "a64_context \<Rightarrow> nat \<Rightarrow> bool" where
  "window_ok c n \<longleftrightarrow>
     n \<le> A64_MAX_INSTRUCTIONS \<and> length (dat c) = A64_MAX_INSTRUCTIONS \<and>
     endp c = basep c + 4 * of_nat n \<and> basep c AND 3 = 0"

text \<open>
  The addresses a pending list still has to patch, and the frame of a piece of the
  relocator: \<open>kept_but P b hi m m'\<close> says that \<open>m'\<close> differs from \<open>m\<close> at most at the
  addresses in \<open>P\<close> and in the \<open>hi\<close> words from \<open>b\<close> on.
\<close>

definition pending :: "fix_info list \<Rightarrow> 64 word set" where
  "pending fs = bp ` set fs - {0}"

definition kept_but :: "64 word set \<Rightarrow> 64 word \<Rightarrow> nat \<Rightarrow> memory \<Rightarrow> memory \<Rightarrow> bool" where
  "kept_but P b hi m m' \<longleftrightarrow> (\<forall>a. a \<notin> P \<longrightarrow> (\<forall>j<hi. a \<noteq> b + 4 * of_nat j) \<longrightarrow> m' a = m a)"

text \<open>
  \<open>emitted n lo hi s S\<close>: \<open>S\<close> is \<open>s\<close> after the output for the instruction at \<open>inp s\<close>
  has been written, before its fix-ups are resolved: the cursor has moved by \<open>lo\<close> to \<open>hi\<close>
  words, only the \<open>hi\<close> words from the old cursor on have been written, and at most one
  fix-up has been filed, against a later instruction of the window.
  \<open>stepped n lo hi s s'\<close>: \<open>s'\<close> is \<open>s\<close> after the whole rewriter call, the list of the
  current instruction drained and the words it pointed to patched.
\<close>

definition emitted :: "nat \<Rightarrow> nat \<Rightarrow> nat \<Rightarrow> reloc \<Rightarrow> reloc \<Rightarrow> bool" where
  "emitted n lo hi s S \<longleftrightarrow>
     inp S = inp s \<and>
     (\<exists>k. lo \<le> k \<and> k \<le> hi \<and> outp S = outp s + 4 * of_nat k) \<and>
     basep (ctx S) = basep (ctx s) \<and> endp (ctx S) = endp (ctx s) \<and>
     length (dat (ctx S)) = length (dat (ctx s)) \<and>
     kept_but {} (outp s) hi (mem s) (mem S) \<and>
     (\<forall>j. fmap (dat (ctx S) ! j) = fmap (dat (ctx s) ! j) \<or>
          (unat (get_ref_ins_index (ctx s) (inp s)) < j \<and> j < n \<and>
           (\<exists>l a. fmap (dat (ctx S) ! j) =
                    insert_fmap (fmap (dat (ctx s) ! j)) \<lparr>bp = outp s, ls = l, ad = a\<rparr>)))"

definition stepped :: "nat \<Rightarrow> nat \<Rightarrow> nat \<Rightarrow> reloc \<Rightarrow> reloc \<Rightarrow> bool" where
  "stepped n lo hi s s' \<longleftrightarrow>
     inp s' = inp s + 4 \<and>
     (\<exists>k. lo \<le> k \<and> k \<le> hi \<and> outp s' = outp s + 4 * of_nat k) \<and>
     basep (ctx s') = basep (ctx s) \<and> endp (ctx s') = endp (ctx s) \<and>
     length (dat (ctx s')) = length (dat (ctx s)) \<and>
     kept_but (pending (fmap (dat (ctx s) ! unat (get_ref_ins_index (ctx s) (inp s)))))
       (outp s) hi (mem s) (mem s') \<and>
     (\<exists>t m. fmap (dat (ctx s') ! unat (get_ref_ins_index (ctx s) (inp s))) =
              fst (process_fmap t (fmap (dat (ctx s) ! unat (get_ref_ins_index (ctx s) (inp s)))) m)) \<and>
     (\<forall>j. j \<noteq> unat (get_ref_ins_index (ctx s) (inp s)) \<longrightarrow>
          fmap (dat (ctx s') ! j) = fmap (dat (ctx s) ! j) \<or>
          (unat (get_ref_ins_index (ctx s) (inp s)) < j \<and> j < n \<and>
           (\<exists>l a. fmap (dat (ctx s') ! j) =
                    insert_fmap (fmap (dat (ctx s) ! j)) \<lparr>bp = outp s, ls = l, ad = a\<rparr>)))"

text \<open>
  A pending list is empty when every slot is free (\<open>bp\<close> is \<open>NULL\<close>). It is compact when
  no used slot follows a free one, which is the shape \<open>insert_fix_map\<close> and
  \<open>process_fix_map\<close> keep and the one in which \<open>process_fix_map\<close>, stopping at the first
  free slot, drains the whole list. \<open>reloc_inv n i s\<close> is the state of the loop of
  \<open>__fix_instructions\<close> before instruction \<open>i\<close> of a window of \<open>n\<close>.
\<close>

definition fmap_empty :: "fix_info list \<Rightarrow> bool" where
  "fmap_empty fs \<longleftrightarrow> list_all (\<lambda>f. bp f = 0) fs"

fun compact :: "fix_info list \<Rightarrow> bool" where
  "compact [] = True"
| "compact (f # fs) = (if bp f = 0 then fmap_empty fs else compact fs)"

definition reloc_inv :: "nat \<Rightarrow> nat \<Rightarrow> reloc \<Rightarrow> bool" where
  "reloc_inv n i s \<longleftrightarrow>
     window_ok (ctx s) n \<and> i \<le> n \<and> inp s = basep (ctx s) + 4 * of_nat i \<and> outp s AND 3 = 0 \<and>
     (\<forall>j<A64_MAX_INSTRUCTIONS.
        compact (fmap (dat (ctx s) ! j)) \<and>
        (j < i \<or> n \<le> j \<longrightarrow> fmap_empty (fmap (dat (ctx s) ! j))))"

text \<open>
  \<open>frame_inv out0 m0 i s\<close>: before instruction \<open>i\<close> the cursor is at most \<open>9 * i\<close> words
  after the start \<open>out0\<close> of the buffer, the memory differs from the initial \<open>m0\<close> only
  in those words, and every address a pending list still has to patch is one of them.
\<close>

definition frame_inv :: "64 word \<Rightarrow> memory \<Rightarrow> nat \<Rightarrow> reloc \<Rightarrow> bool" where
  "frame_inv out0 m0 i s \<longleftrightarrow>
     (\<exists>K\<le>9 * i. outp s = out0 + 4 * of_nat K) \<and>
     kept_but {} out0 (9 * i) m0 (mem s) \<and>
     (\<forall>j<A64_MAX_INSTRUCTIONS. \<forall>a\<in>pending (fmap (dat (ctx s) ! j)). \<exists>q<9 * i. a = out0 + 4 * of_nat q)"

section \<open>Concrete memories\<close>

text \<open>A function at \<open>0x1000\<close> that starts with \<open>ADD X0, X0, #1\<close>.\<close>

definition add_mem :: memory where
  "add_mem = (\<lambda>_. 0)(0x1000 := 0x91000400)"

text \<open>A function at \<open>0x10000000\<close> that starts with \<open>LDR Q0, #0x100\<close>.\<close>

definition ldrq_mem :: memory where
  "ldrq_mem = (\<lambda>_. 0)(0x10000000 := 0x9c000800)"

text \<open>
  A window of one instruction at \<open>0x1000\<close>, \<open>B #8\<close>, whose target \<open>0x1008\<close> lies
  outside the window; relocated to \<open>0x2000\<close>, and to \<open>0x8001004\<close>, where the new word
  offset is \<open>-(2^25 - 1)\<close>.
\<close>

definition b_near_state :: reloc where
  "b_near_state = \<lparr>inp = 0x1000, outp = 0x2000, ctx = init_context 0x1000 1,
                    mem = (\<lambda>_. 0)(0x1000 := 0x14000002)\<rparr>"

definition b_edge_state :: reloc where
  "b_edge_state = \<lparr>inp = 0x1000, outp = 0x8001004, ctx = init_context 0x1000 1,
                    mem = (\<lambda>_. 0)(0x1000 := 0x14000002)\<rparr>"

text \<open>
  Scenario S4 of the specification: \<open>BL #4\<close> at \<open>0x10000000\<close>, a window of one
  instruction, the trampoline at \<open>0x80000000\<close>.
\<close>

definition bl_far_state :: reloc where
  "bl_far_state = \<lparr>inp = 0x10000000, outp = 0x80000000, ctx = init_context 0x10000000 1,
                    mem = (\<lambda>_. 0)(0x10000000 := 0x94000001)\<rparr>"

text \<open>\<open>B.EQ #8\<close>, target outside the window of one, and \<open>B.EQ #0\<close>, a branch to itself.\<close>

definition cond_far_state :: reloc where
  "cond_far_state = \<lparr>inp = 0x10000000, outp = 0x80000000, ctx = init_context 0x10000000 1,
                      mem = (\<lambda>_. 0)(0x10000000 := 0x54000040)\<rparr>"

definition cond_self_state :: reloc where
  "cond_self_state = \<lparr>inp = 0x10000000, outp = 0x80000000, ctx = init_context 0x10000000 1,
                       mem = (\<lambda>_. 0)(0x10000000 := 0x54000000)\<rparr>"

text \<open>\<open>ADRP X0\<close> to the next page, relocated to an address that needs the NOP.\<close>

definition adrp_state :: reloc where
  "adrp_state = \<lparr>inp = 0x10000000, outp = 0x80000004, ctx = init_context 0x10000000 1,
                  mem = (\<lambda>_. 0)(0x10000000 := 0xb0000000)\<rparr>"

text \<open>\<open>ADRP X3\<close> to the page before its own, immediate \<open>-1\<close>, in a window of one.\<close>

definition adrp_neg_state :: reloc where
  "adrp_neg_state = \<lparr>inp = 0x10000000, outp = 0x80000000, ctx = init_context 0x10000000 1,
                      mem = (\<lambda>_. 0)(0x10000000 := 0xf0ffffe3)\<rparr>"

text \<open>
  \<open>PRFM PLDL1KEEP, #0x100\<close>, and the \<open>LDR Q0, #0x100\<close> of \<open>ldrq_mem\<close> relocated to an address
  where the 16-byte literal needs three NOPs.
\<close>

definition prfm_state :: reloc where
  "prfm_state = \<lparr>inp = 0x10000000, outp = 0x80000000, ctx = init_context 0x10000000 1,
                  mem = (\<lambda>_. 0)(0x10000000 := 0xd8000800)\<rparr>"

definition ldrq_state :: reloc where
  "ldrq_state = \<lparr>inp = 0x10000000, outp = 0x8000000c, ctx = init_context 0x10000000 1,
                  mem = ldrq_mem\<rparr>"




section \<open>Basic facts\<close>

lemma put_sel [simp]:
  "inp (put k w s) = inp s" "outp (put k w s) = outp s" "ctx (put k w s) = ctx s"
  "mem (put k w s) = (mem s)(outp s + 4 * of_nat k := w)"
  by (simp_all add: put_def)

lemma put64_sel [simp]:
  "inp (put64 k v s) = inp s" "outp (put64 k v s) = outp s" "ctx (put64 k v s) = ctx s"
  "mem (put64 k v s) = store64 (mem s) (outp s + 4 * of_nat k) v"
  by (simp_all add: put64_def)

lemma advance_sel [simp]:
  "inp (advance k s) = inp s" "outp (advance k s) = outp s + 4 * of_nat k"
  "ctx (advance k s) = ctx s" "mem (advance k s) = mem s"
  by (simp_all add: advance_def)

lemma prepend_nop_sel [simp]:
  "inp (prepend_nop idx s) = inp s" "outp (prepend_nop idx s) = outp s + 4"
  "ctx (prepend_nop idx s) = reset_current_ins (ctx s) idx (outp s + 4)"
  "mem (prepend_nop idx s) = (mem s)(outp s := A64_NOP)"
  by (simp_all add: prepend_nop_def Let_def)

lemma reset_current_ins_sel [simp]:
  "basep (reset_current_ins c idx out) = basep c"
  "endp (reset_current_ins c idx out) = endp c"
  "length (dat (reset_current_ins c idx out)) = length (dat c)"
  by (simp_all add: reset_current_ins_def)

lemma reset_current_ins_fmap [simp]:
  "fmap (dat (reset_current_ins c idx out) ! j) = fmap (dat c ! j)"
proof (cases "unat idx < length (dat c)")
  case True
  then show ?thesis by (simp add: reset_current_ins_def nth_list_update)
next
  case False
  then show ?thesis by (simp add: reset_current_ins_def list_update_beyond)
qed

lemma is_in_fixing_range_reset [simp]:
  "is_in_fixing_range (reset_current_ins c idx out) a = is_in_fixing_range c a"
  by (simp add: is_in_fixing_range_def)

lemma get_and_set_Some:
  "unat (get_ref_ins_index c i) < length (dat c) \<Longrightarrow>
   get_and_set_current_index c i out =
     Some (get_ref_ins_index c i, reset_current_ins c (get_ref_ins_index c i) out)"
  by (simp add: get_and_set_current_index_def Let_def)

text \<open>\<open>process_fix_map\<close> writes only to the addresses filed in the list it drains.\<close>

lemma process_fmap_frame: "a \<notin> bp ` set fs \<Longrightarrow> snd (process_fmap tgt fs m) a = m a"
  by (induction fs arbitrary: m) (auto simp add: Let_def)

lemma process_fix_map_sel [simp]:
  "inp (process_fix_map idx s) = inp s" "outp (process_fix_map idx s) = outp s"
  by (simp_all add: process_fix_map_def Let_def)

lemma process_fix_map_frame:
  "a \<notin> bp ` set (fmap (dat (ctx s) ! unat idx)) \<Longrightarrow> mem (process_fix_map idx s) a = mem s a"
  by (simp add: process_fix_map_def Let_def process_fmap_frame)

subsection \<open>Signed offsets\<close>

lemma sint_shift2_bounds:
  "- 2305843009213693952 \<le> sint (signed_drop_bit 2 (x :: 64 word))"
  "sint (signed_drop_bit 2 (x :: 64 word)) < 2305843009213693952"
proof -
  have a: "- 9223372036854775808 \<le> sint x" "sint x < 9223372036854775808"
    using sint_ge [of x] sint_lt [of x] by simp_all
  have e: "sint (signed_drop_bit 2 x) = sint x div 4"
    by (simp add: sint_signed_drop_bit_eq drop_bit_eq_div)
  show "- 2305843009213693952 \<le> sint (signed_drop_bit 2 x)"
    unfolding e using a by linarith
  show "sint (signed_drop_bit 2 x) < 2305843009213693952"
    unfolding e using a by linarith
qed

text \<open>On a shifted difference \<open>llabs\<close> is the absolute value: \<open>INT64_MIN\<close> cannot occur.\<close>

lemma sint_llabs_shift:
  "sint (llabs (signed_drop_bit 2 (x :: 64 word))) = \<bar>sint (signed_drop_bit 2 x)\<bar>"
proof -
  let ?y = "signed_drop_bit 2 x"
  have "sint (- ?y) = signed_take_bit 63 (- sint ?y)"
    by (simp add: sint_word_ariths)
  also have "\<dots> = - sint ?y"
    by (rule signed_take_bit_int_eq_self) (use sint_shift2_bounds [of x] in simp_all)
  finally have n: "sint (- ?y) = - sint ?y" .
  show ?thesis
  proof (cases "?y <s 0")
    case True
    then show ?thesis using n by (simp add: llabs_def word_sless_alt)
  next
    case False
    then show ?thesis by (simp add: llabs_def word_sless_alt)
  qed
qed

lemma far_test_iff:
  "(numeral n :: 64 word) \<le>s llabs (signed_drop_bit 2 x) \<longleftrightarrow>
   sint (numeral n :: 64 word) \<le> \<bar>sint (signed_drop_bit 2 x)\<bar>"
  by (simp only: word_sle_eq sint_llabs_shift)

subsection \<open>Alignment\<close>

lemma and_7_iff: "(w :: 64 word) AND 7 = 0 \<longleftrightarrow> uint w mod 8 = 0"
proof -
  have "w AND 7 = take_bit 3 w"
    by (simp add: take_bit_eq_mask mask_eq_exp_minus_1)
  then have "uint (w AND 7) = uint w mod 8"
    by (simp add: take_bit_eq_mod uint_mod_distrib)
  then show ?thesis
    by (metis uint_0_iff)
qed

lemma and_3_iff: "(w :: 64 word) AND 3 = 0 \<longleftrightarrow> uint w mod 4 = 0"
proof -
  have "w AND 3 = take_bit 2 w"
    by (simp add: take_bit_eq_mask mask_eq_exp_minus_1)
  then have "uint (w AND 3) = uint w mod 4"
    by (simp add: take_bit_eq_mod uint_mod_distrib)
  then show ?thesis
    by (metis uint_0_iff)
qed

lemma uint_add_mod_8: "uint ((a :: 64 word) + b) mod 8 = (uint a + uint b) mod 8"
  by (simp add: uint_word_ariths mod_mod_cancel)

lemma uint_add_mod_4: "uint ((a :: 64 word) + b) mod 4 = (uint a + uint b) mod 4"
  by (simp add: uint_word_ariths mod_mod_cancel)

lemmas align_simps = and_7_iff and_3_iff uint_add_mod_8 uint_add_mod_4

lemma nop_align:
  assumes "(a :: 64 word) AND 3 = 0"
  shows "((a + 8) AND 7 = 0) \<longleftrightarrow> ((a + 12) AND 7 \<noteq> 0)"
    and "(a + 8) AND 7 = 0 \<Longrightarrow> (a + 16) AND 7 = 0"
    and "(a + 8) AND 7 \<noteq> 0 \<Longrightarrow> (a + 12) AND 7 = 0"
    and "(a + 16) AND 7 \<noteq> 0 \<Longrightarrow> (a + 20) AND 7 = 0"
  using assms unfolding align_simps by (simp_all; presburger)+

subsection \<open>Signed comparison and the index of a target inside the window\<close>

lemma sint_uint_cases:
  fixes w :: "64 word"
  shows "(uint w < 9223372036854775808 \<and> sint w = uint w) \<or>
         (9223372036854775808 \<le> uint w \<and> sint w = uint w - 18446744073709551616)"
proof -
  define q where "q = sint w div 18446744073709551616"
  have b: "- 9223372036854775808 \<le> sint w" "sint w < 9223372036854775808"
    using sint_ge [of w] sint_lt [of w] by simp_all
  have u: "0 \<le> uint w" "uint w < 18446744073709551616"
    using uint_lt2p [of w] by simp_all
  have "uint w = sint w mod 18446744073709551616"
    using uint_sint [of w] by (simp add: take_bit_eq_mod)
  then have e: "sint w = 18446744073709551616 * q + uint w"
    unfolding q_def by simp
  have "- 1 \<le> q" "q \<le> 0"
    using e b u by linarith+
  then have "q = 0 \<or> q = - 1"
    by linarith
  then show ?thesis
    using e b u by auto
qed

lemma in_window_index:
  fixes a b :: "64 word"
  assumes "b \<le>s a" and "a <s b + 4 * of_nat n" and "n \<le> 5"
  shows "unat ((a - b) div 4) < n"
proof -
  have n: "n = 0 \<or> n = 1 \<or> n = 2 \<or> n = 3 \<or> n = 4 \<or> n = 5"
    using assms(3) by arith
  then have k: "uint (4 * of_nat n :: 64 word) = 4 * int n"
    by auto
  have le: "sint b \<le> sint a" and lt: "sint a < sint (b + 4 * of_nat n)"
    using assms by (simp_all add: word_sle_eq word_sless_alt)
  have ua: "0 \<le> uint a" "uint a < 18446744073709551616"
    and ub: "0 \<le> uint b" "uint b < 18446744073709551616"
    using uint_lt2p [of a] uint_lt2p [of b] by simp_all
  have e: "uint (b + 4 * of_nat n) = uint b + 4 * int n \<or>
           uint (b + 4 * of_nat n) = uint b + 4 * int n - 18446744073709551616"
    using uint_plus_if' [of b "4 * of_nat n"] unfolding k by (simp split: if_splits)
  have d: "uint (a - b) = uint a - uint b \<or> uint (a - b) = uint a - uint b + 18446744073709551616"
    using uint_sub_if' [of a b] by (simp split: if_splits)
  have r: "0 \<le> uint (a - b)" "uint (a - b) < 18446744073709551616"
       "0 \<le> uint (b + 4 * of_nat n)" "uint (b + 4 * of_nat n) < 18446744073709551616"
    using uint_lt2p [of "a - b"] uint_lt2p [of "b + 4 * of_nat n"] by simp_all
  have "uint (a - b) < 4 * int n"
    using le lt sint_uint_cases [of a] sint_uint_cases [of b] sint_uint_cases [of "b + 4 * of_nat n"]
      ua ub e d r assms(3)
    by linarith
  then have "uint (a - b) div 4 < int n"
    by linarith
  then have "uint ((a - b) div 4) < int n"
    by (simp add: uint_div_distrib)
  then show ?thesis
    by (simp only: uint_nat of_nat_less_iff)
qed

subsection \<open>The padding loops end\<close>

lemma nops_sel [simp]:
  "inp (nops k s) = inp s" "ctx (nops k s) = ctx s" "outp (nops k s) = outp s + 4 * of_nat k"
  by (induction k arbitrary: s; simp add: algebra_simps)+

lemma pad_inline_run:
  assumes "\<forall>j<k. (outp s + 4 * of_nat j + 8) AND fa \<noteq> 0"
    and "(outp s + 4 * of_nat k + 8) AND fa = 0"
  shows "pad_inline fa s = Some (nops k s)"
  using assms
proof (induction k arbitrary: s)
  case 0
  then show ?case
    by (subst pad_inline.simps) simp
next
  case (Suc k)
  let ?s1 = "advance 1 (put 0 A64_NOP s)"
  have e: "outp ?s1 + 4 * of_nat j = outp s + 4 * of_nat (Suc j)" for j
    by (simp add: algebra_simps)
  have first: "(outp s + 8) AND fa \<noteq> 0"
    using Suc.prems(1) [rule_format, of 0] by simp
  have "\<forall>j<k. (outp ?s1 + 4 * of_nat j + 8) AND fa \<noteq> 0"
    unfolding e using Suc.prems(1) by blast
  moreover have "(outp ?s1 + 4 * of_nat k + 8) AND fa = 0"
    unfolding e using Suc.prems(2) by blast
  ultimately have "pad_inline fa ?s1 = Some (nops k ?s1)"
    by (rule Suc.IH)
  then show ?case
    using first by (subst pad_inline.simps) simp
qed

lemma and_15_iff: "(w :: 64 word) AND 15 = 0 \<longleftrightarrow> uint w mod 16 = 0"
proof -
  have "w AND 15 = take_bit 4 w"
    by (simp add: take_bit_eq_mask mask_eq_exp_minus_1)
  then have "uint (w AND 15) = uint w mod 16"
    by (simp add: take_bit_eq_mod uint_mod_distrib)
  then show ?thesis
    by (metis uint_0_iff)
qed

lemma uint_add_mod_16: "uint ((a :: 64 word) + b) mod 16 = (uint a + uint b) mod 16"
  by (simp add: uint_word_ariths mod_mod_cancel)

lemma pad_inline_exists:
  assumes "(a :: 64 word) AND 3 = 0" and "fa = 3 \<or> fa = 7 \<or> fa = 15"
  shows "(a + 8) AND fa = 0 \<or> (a + 12) AND fa = 0 \<or> (a + 16) AND fa = 0 \<or> (a + 20) AND fa = 0"
  using assms unfolding and_3_iff
  by (elim disjE; simp add: and_3_iff and_7_iff and_15_iff uint_add_mod_4 uint_add_mod_8 uint_add_mod_16; presburger)

lemma least_up_to_3:
  assumes "Q 0 \<or> Q 1 \<or> Q 2 \<or> Q (3 :: nat)"
  obtains k where "k \<le> 3" and "Q k" and "\<forall>j<k. \<not> Q j"
proof -
  obtain k0 where k0: "k0 \<le> 3" "Q k0"
    using assms by (elim disjE) (rule that [of _] | auto)+
  define k where "k = (LEAST k. Q k)"
  have "Q k"
    unfolding k_def using k0(2) by (rule LeastI)
  moreover have "k \<le> k0"
    unfolding k_def using k0(2) by (rule Least_le)
  moreover have "\<forall>j<k. \<not> Q j"
    unfolding k_def using not_less_Least by blast
  ultimately have "k \<le> 3 \<and> Q k \<and> (\<forall>j<k. \<not> Q j)"
    using k0(1) by simp
  then show ?thesis
    using that by blast
qed

lemma pad_inline_total:
  assumes al: "outp s AND 3 = 0" and fa: "fa = 3 \<or> fa = 7 \<or> fa = 15"
  shows "\<exists>k\<le>3. pad_inline fa s = Some (nops k s)"
proof -
  define Q where "Q k \<longleftrightarrow> (outp s + 4 * of_nat k + 8) AND fa = 0" for k :: nat
  have q: "Q 0 \<longleftrightarrow> (outp s + 8) AND fa = 0" "Q 1 \<longleftrightarrow> (outp s + 12) AND fa = 0"
    "Q 2 \<longleftrightarrow> (outp s + 16) AND fa = 0" "Q 3 \<longleftrightarrow> (outp s + 20) AND fa = 0"
    by (simp_all add: Q_def add.commute)
  have "Q 0 \<or> Q 1 \<or> Q 2 \<or> Q 3"
    unfolding q using pad_inline_exists [OF al fa] .
  then obtain k where "k \<le> 3" "Q k" "\<forall>j<k. \<not> Q j"
    by (rule least_up_to_3)
  then have "k \<le> 3" "pad_inline fa s = Some (nops k s)"
    using pad_inline_run [of k s fa] by (simp_all add: Q_def)
  then show ?thesis by blast
qed


lemma pad_reimm_run:
  assumes "\<forall>j<k. signed_drop_bit 2 (a - (outp s + 4 * of_nat j)) AND fa \<noteq> 0"
    and "signed_drop_bit 2 (a - (outp s + 4 * of_nat k)) AND fa = 0"
  shows "pad_reimm a fa (signed_drop_bit 2 (a - outp s)) s =
           Some (signed_drop_bit 2 (a - (outp s + 4 * of_nat k)), nops k s)"
  using assms
proof (induction k arbitrary: s)
  case 0
  then show ?case
    by (subst pad_reimm.simps) simp
next
  case (Suc k)
  let ?s1 = "advance 1 (put 0 A64_NOP s)"
  have e: "outp ?s1 + 4 * of_nat j = outp s + 4 * of_nat (Suc j)" for j
    by (simp add: algebra_simps)
  have first: "signed_drop_bit 2 (a - outp s) AND fa \<noteq> 0"
    using Suc.prems(1) [rule_format, of 0] by simp
  have "\<forall>j<k. signed_drop_bit 2 (a - (outp ?s1 + 4 * of_nat j)) AND fa \<noteq> 0"
    unfolding e using Suc.prems(1) by blast
  moreover have "signed_drop_bit 2 (a - (outp ?s1 + 4 * of_nat k)) AND fa = 0"
    unfolding e using Suc.prems(2) by blast
  ultimately have "pad_reimm a fa (signed_drop_bit 2 (a - outp ?s1)) ?s1 =
      Some (signed_drop_bit 2 (a - (outp ?s1 + 4 * of_nat k)), nops k ?s1)"
    by (rule Suc.IH)
  then show ?case
    using first unfolding e by (subst pad_reimm.simps) simp
qed

lemma shifted_low_bits:
  "signed_drop_bit 2 (y :: 64 word) AND 3 = 0 \<longleftrightarrow> (uint y div 4) mod 4 = 0"
proof -
  have "signed_drop_bit 2 y AND mask 2 = take_bit 2 (drop_bit 2 y)"
  proof (rule bit_word_eqI)
    fix n assume "n < LENGTH(64)"
    show "bit (signed_drop_bit 2 y AND mask 2) n = bit (take_bit 2 (drop_bit 2 y)) n"
    proof (cases "n < 2")
      case True
      then show ?thesis
        by (simp add: bit_and_iff bit_mask_iff bit_signed_drop_bit_iff bit_take_bit_iff bit_drop_bit_eq)
    next
      case False
      then show ?thesis
        by (simp add: bit_and_iff bit_mask_iff bit_take_bit_iff)
    qed
  qed
  moreover have "mask 2 = (3 :: 64 word)"
    by (simp add: mask_eq_exp_minus_1)
  ultimately have "signed_drop_bit 2 y AND 3 = take_bit 2 (drop_bit 2 y)"
    by simp
  then have "uint (signed_drop_bit 2 y AND 3) = (uint y div 4) mod 4"
    by (simp add: take_bit_eq_mod drop_bit_eq_div uint_mod_distrib uint_div_distrib)
  then show ?thesis
    by (metis uint_0_iff)
qed

lemma low_bits_weaken:
  assumes "(v :: 64 word) AND 3 = 0" and "fa = 0 \<or> fa = 1 \<or> fa = 3"
  shows "v AND fa = 0"
proof -
  have "v AND 1 = (v AND 3) AND 1"
    by (simp add: and.assoc)
  then show ?thesis
    using assms by auto
qed

lemma quarter_mod_16: "(k div 4) mod 4 = 0 \<longleftrightarrow> k mod 16 < 4" for k :: int
proof -
  have "k mod (4 * 4) = 4 * (k div 4 mod 4) + k mod 4"
    by (rule zmod_zmult2_eq) simp
  then have e: "k mod 16 = 4 * (k div 4 mod 4) + k mod 4"
    by simp
  have b: "0 \<le> k mod 4" "k mod 4 < 4" "0 \<le> k div 4 mod 4"
    by simp_all
  show ?thesis
  proof
    assume "k div 4 mod 4 = 0"
    then show "k mod 16 < 4" using e b by linarith
  next
    assume "k mod 16 < 4"
    then show "k div 4 mod 4 = 0" using e b by linarith
  qed
qed

lemma uint_sub_mod_16: "uint ((a :: 64 word) - b) mod 16 = (uint a - uint b) mod 16"
  by (simp add: uint_word_ariths mod_mod_cancel)

lemma quarter_exists:
  "u mod 16 < 4 \<or> (u - 4) mod 16 < 4 \<or> (u - 8) mod 16 < 4 \<or> (u - 12) mod 16 < 4" for u :: int
proof -
  define m where "m = u mod 16"
  have b: "0 \<le> m" "m < 16"
    by (simp_all add: m_def)
  have e: "(u - c) mod 16 = (m - c) mod 16" for c
    by (simp add: m_def mod_diff_left_eq)
  have t: "0 \<le> m - c \<Longrightarrow> m - c < 4 \<Longrightarrow> (u - c) mod 16 < 4" for c
    unfolding e by (simp add: mod_pos_pos_trivial)
  consider "m < 4" | "4 \<le> m \<and> m < 8" | "8 \<le> m \<and> m < 12" | "12 \<le> m"
    by linarith
  then show ?thesis
  proof cases
    case 1
    then show ?thesis by (simp add: m_def)
  next
    case 2
    then have "(u - 4) mod 16 < 4" by (intro t) linarith+
    then show ?thesis by blast
  next
    case 3
    then have "(u - 8) mod 16 < 4" by (intro t) linarith+
    then show ?thesis by blast
  next
    case 4
    then have "(u - 12) mod 16 < 4" using b by (intro t) linarith+
    then show ?thesis by blast
  qed
qed

lemma pad_reimm_exists:
  fixes x :: "64 word"
  shows "signed_drop_bit 2 x AND 3 = 0 \<or> signed_drop_bit 2 (x - 4) AND 3 = 0 \<or>
         signed_drop_bit 2 (x - 8) AND 3 = 0 \<or> signed_drop_bit 2 (x - 12) AND 3 = 0"
proof -
  have u: "uint (4 :: 64 word) = 4" "uint (8 :: 64 word) = 8" "uint (12 :: 64 word) = 12"
    by simp_all
  show ?thesis
    unfolding shifted_low_bits quarter_mod_16 uint_sub_mod_16 u
    by (rule quarter_exists)
qed


lemma pad_reimm_total:
  assumes fa: "fa = 0 \<or> fa = 1 \<or> fa = 3"
  shows "\<exists>k\<le>3. \<exists>off. pad_reimm a fa (signed_drop_bit 2 (a - outp s)) s = Some (off, nops k s)"
proof -
  define Q where "Q k \<longleftrightarrow> signed_drop_bit 2 (a - (outp s + 4 * of_nat k)) AND fa = 0" for k :: nat
  have d: "a - (outp s + 4 * of_nat 0) = a - outp s" "a - (outp s + 4 * of_nat 1) = a - outp s - 4"
    "a - (outp s + 4 * of_nat 2) = a - outp s - 8" "a - (outp s + 4 * of_nat 3) = a - outp s - 12"
    by simp_all
  have "signed_drop_bit 2 (a - outp s - c) AND 3 = 0 \<Longrightarrow> signed_drop_bit 2 (a - outp s - c) AND fa = 0" for c
    using low_bits_weaken [OF _ fa] by blast
  then have "Q 0 \<or> Q 1 \<or> Q 2 \<or> Q 3"
    unfolding Q_def d using pad_reimm_exists [of "a - outp s"] by (metis diff_zero)
  then obtain k where "k \<le> 3" "Q k" "\<forall>j<k. \<not> Q j"
    by (rule least_up_to_3)
  then have "k \<le> 3" "pad_reimm a fa (signed_drop_bit 2 (a - outp s)) s =
      Some (signed_drop_bit 2 (a - (outp s + 4 * of_nat k)), nops k s)"
    using pad_reimm_run [of k a s fa] by (simp_all add: Q_def)
  then show ?thesis by blast
qed

subsection \<open>The recorded output address and the frame of the fix-ups\<close>

lemma reset_current_ins_ins:
  "unat idx < length (dat c) \<Longrightarrow> ins (dat (reset_current_ins c idx out) ! unat idx) = out"
  by (simp add: reset_current_ins_def)

lemma process_fix_map_ins:
  "ins (dat (ctx (process_fix_map idx s)) ! j) = ins (dat (ctx s) ! j)"
proof (cases "unat idx < length (dat (ctx s))")
  case True
  then show ?thesis by (simp add: process_fix_map_def Let_def nth_list_update)
next
  case False
  then show ?thesis by (simp add: process_fix_map_def Let_def list_update_beyond)
qed


lemma process_fix_map_frame_at:
  assumes "fmap (dat (ctx S) ! unat idx) = F" and "a \<notin> bp ` set F"
  shows "mem (process_fix_map idx S) a = mem S a"
  using assms by (simp add: process_fix_map_frame)

lemma all_less_5: "(\<forall>k<5::nat. P k) \<longleftrightarrow> P 0 \<and> P 1 \<and> P 2 \<and> P 3 \<and> P 4"
proof -
  have "k < 5 \<longleftrightarrow> k = 0 \<or> k = 1 \<or> k = 2 \<or> k = 3 \<or> k = 4" for k :: nat
    by arith
  then show ?thesis by auto
qed

lemma all_less_6: "(\<forall>k<6::nat. P k) \<longleftrightarrow> P 0 \<and> P 1 \<and> P 2 \<and> P 3 \<and> P 4 \<and> P 5"
proof -
  have "k < 6 \<longleftrightarrow> k = 0 \<or> k = 1 \<or> k = 2 \<or> k = 3 \<or> k = 4 \<or> k = 5" for k :: nat
    by arith
  then show ?thesis by auto
qed

lemma all_less_7: "(\<forall>k<7::nat. P k) \<longleftrightarrow> P 0 \<and> P 1 \<and> P 2 \<and> P 3 \<and> P 4 \<and> P 5 \<and> P 6"
proof -
  have "k < 7 \<longleftrightarrow> k = 0 \<or> k = 1 \<or> k = 2 \<or> k = 3 \<or> k = 4 \<or> k = 5 \<or> k = 6" for k :: nat
    by arith
  then show ?thesis by auto
qed

lemma empty_fmap_frame:
  "bp ` set (fmap (dat (init_context b n) ! 0)) = {0}"
  by (simp add: init_context_def A64_MAX_INSTRUCTIONS_def A64_MAX_REFERENCES_def)

subsection \<open>The literal sequences\<close>

lemma far_bl_sel:
  "inp (far_bl idx a s) = inp s"
  "outp (far_bl idx a s) = (if (outp s + 8) AND 7 = 0 then outp s + 24 else outp s + 20)"
  "ctx (far_bl idx a s) =
     (if (outp s + 8) AND 7 = 0 then reset_current_ins (ctx s) idx (outp s + 4) else ctx s)"
  by (simp_all add: far_bl_def Let_def)

lemma far_bl_mem_nop:
  "(outp s + 8) AND 7 = 0 \<Longrightarrow>
   map (mem (far_bl idx a s)) [outp s, outp s + 4, outp s + 8, outp s + 12, outp s + 16, outp s + 20] =
     [A64_NOP, 0x58000071, 0x1000009e, 0xd61f0220, ucast a, ucast (drop_bit 32 a)]"
  by (simp add: far_bl_def Let_def store64_def)

lemma far_bl_mem_plain:
  "(outp s + 8) AND 7 \<noteq> 0 \<Longrightarrow>
   map (mem (far_bl idx a s)) [outp s, outp s + 4, outp s + 8, outp s + 12, outp s + 16] =
     [0x58000071, 0x1000009e, 0xd61f0220, ucast a, ucast (drop_bit 32 a)]"
  by (simp add: far_bl_def Let_def store64_def)

lemma far_cond_sel:
  "inp (far_cond lmask i idx a s) = inp s"
  "outp (far_cond lmask i idx a s) = (if (outp s + 16) AND 7 \<noteq> 0 then outp s + 28 else outp s + 24)"
  "ctx (far_cond lmask i idx a s) =
     (if (outp s + 16) AND 7 \<noteq> 0 then reset_current_ins (ctx s) idx (outp s + 4) else ctx s)"
  by (simp_all add: far_cond_def Let_def)

lemma far_cond_mem_nop:
  "(outp s + 16) AND 7 \<noteq> 0 \<Longrightarrow>
   map (mem (far_cond lmask i idx a s))
     [outp s, outp s + 4, outp s + 8, outp s + 12, outp s + 16, outp s + 20, outp s + 24] =
     [A64_NOP, (push_bit 5 (drop_bit 2 8) AND NOT lmask) OR (i AND lmask), 0x14000005, 0x58000051,
      0xd61f0220, ucast a, ucast (drop_bit 32 a)]"
  by (simp add: far_cond_def Let_def store64_def)

lemma far_cond_mem_plain:
  "(outp s + 16) AND 7 = 0 \<Longrightarrow>
   map (mem (far_cond lmask i idx a s))
     [outp s, outp s + 4, outp s + 8, outp s + 12, outp s + 16, outp s + 20] =
     [(push_bit 5 (drop_bit 2 8) AND NOT lmask) OR (i AND lmask), 0x14000005, 0x58000051,
      0xd61f0220, ucast a, ucast (drop_bit 32 a)]"
  by (simp add: far_cond_def Let_def store64_def)

lemma ldr_literal_sel:
  "inp (ldr_literal i idx a s) = inp s"
  "outp (ldr_literal i idx a s) = (if (outp s + 8) AND 7 \<noteq> 0 then outp s + 20 else outp s + 16)"
  "ctx (ldr_literal i idx a s) =
     (if (outp s + 8) AND 7 \<noteq> 0 then reset_current_ins (ctx s) idx (outp s + 4) else ctx s)"
  by (simp_all add: ldr_literal_def Let_def)

lemma ldr_literal_mem_nop:
  "(outp s + 8) AND 7 \<noteq> 0 \<Longrightarrow>
   map (mem (ldr_literal i idx a s)) [outp s, outp s + 4, outp s + 8, outp s + 12, outp s + 16] =
     [A64_NOP, 0x58000040 OR (i AND 0x1f), 0x14000003, ucast a, ucast (drop_bit 32 a)]"
  by (simp add: ldr_literal_def Let_def store64_def flip: or.assoc)

lemma ldr_literal_mem_plain:
  "(outp s + 8) AND 7 = 0 \<Longrightarrow>
   map (mem (ldr_literal i idx a s)) [outp s, outp s + 4, outp s + 8, outp s + 12] =
     [0x58000040 OR (i AND 0x1f), 0x14000003, ucast a, ucast (drop_bit 32 a)]"
  by (simp add: ldr_literal_def Let_def store64_def flip: or.assoc)

lemma cond_lmask_cases: "cond_lmask i = Some lmask \<Longrightarrow> lmask = 0xff00001f \<or> lmask = 0xfff8001f"
  by (auto simp add: cond_lmask_def split: if_splits)

section \<open>What one rewriter call does to the cursors and the lists\<close>

lemma process_fix_map_ctx [simp]:
  "basep (ctx (process_fix_map idx s)) = basep (ctx s)"
  "endp (ctx (process_fix_map idx s)) = endp (ctx s)"
  "length (dat (ctx (process_fix_map idx s))) = length (dat (ctx s))"
  by (simp_all add: process_fix_map_def Let_def)

lemma process_fix_map_fmap:
  "unat idx < length (dat (ctx s)) \<Longrightarrow>
   fmap (dat (ctx (process_fix_map idx s)) ! j) =
     (if j = unat idx
      then fst (process_fmap (ins (dat (ctx s) ! unat idx)) (fmap (dat (ctx s) ! unat idx)) (mem s))
      else fmap (dat (ctx s) ! j))"
  by (simp add: process_fix_map_def Let_def nth_list_update)

lemma kept_refl [simp]: "kept_but P b hi m m"
  by (simp add: kept_but_def)

lemma kept_mono: "kept_but P b hi m m' \<Longrightarrow> hi \<le> hi' \<Longrightarrow> kept_but P b hi' m m'"
  unfolding kept_but_def by (meson less_le_trans)

lemma kept_trans: "kept_but P b hi m m1 \<Longrightarrow> kept_but P b hi m1 m2 \<Longrightarrow> kept_but P b hi m m2"
  unfolding kept_but_def by simp

lemma kept_upd:
  assumes "k < hi" and "kept_but P b hi m m'"
  shows "kept_but P b hi m (m'(b + 4 * of_nat k := w))"
  using assms unfolding kept_but_def by auto

lemma kept_upds [simp]:
  assumes "kept_but P b hi m m'"
  shows "0 < hi \<Longrightarrow> kept_but P b hi m (m'(b := w))"
    and "1 < hi \<Longrightarrow> kept_but P b hi m (m'(b + 4 := w))"
    and "1 < hi \<Longrightarrow> kept_but P b hi m (m'(4 + b := w))"
    and "2 < hi \<Longrightarrow> kept_but P b hi m (m'(b + 8 := w))"
    and "2 < hi \<Longrightarrow> kept_but P b hi m (m'(8 + b := w))"
    and "3 < hi \<Longrightarrow> kept_but P b hi m (m'(b + 12 := w))"
    and "3 < hi \<Longrightarrow> kept_but P b hi m (m'(12 + b := w))"
    and "4 < hi \<Longrightarrow> kept_but P b hi m (m'(b + 16 := w))"
    and "4 < hi \<Longrightarrow> kept_but P b hi m (m'(16 + b := w))"
    and "5 < hi \<Longrightarrow> kept_but P b hi m (m'(b + 20 := w))"
    and "5 < hi \<Longrightarrow> kept_but P b hi m (m'(20 + b := w))"
    and "6 < hi \<Longrightarrow> kept_but P b hi m (m'(b + 24 := w))"
    and "6 < hi \<Longrightarrow> kept_but P b hi m (m'(24 + b := w))"
    and "7 < hi \<Longrightarrow> kept_but P b hi m (m'(b + 28 := w))"
    and "7 < hi \<Longrightarrow> kept_but P b hi m (m'(28 + b := w))"
    and "8 < hi \<Longrightarrow> kept_but P b hi m (m'(b + 32 := w))"
    and "8 < hi \<Longrightarrow> kept_but P b hi m (m'(32 + b := w))"
  using kept_upd [OF _ assms, of 0 w] kept_upd [OF _ assms, of 1 w] kept_upd [OF _ assms, of 2 w] kept_upd [OF _ assms, of 3 w] kept_upd [OF _ assms, of 4 w] kept_upd [OF _ assms, of 5 w] kept_upd [OF _ assms, of 6 w] kept_upd [OF _ assms, of 7 w] kept_upd [OF _ assms, of 8 w]
  by (simp_all add: add.commute)

lemma process_fmap_pending: "a \<notin> pending fs \<Longrightarrow> snd (process_fmap tgt fs m) a = m a"
  by (induction fs arbitrary: m) (auto simp add: Let_def pending_def)

lemma process_fix_map_kept:
  "kept_but (pending (fmap (dat (ctx S) ! unat idx))) b hi (mem S) (mem (process_fix_map idx S))"
  by (simp add: kept_but_def process_fix_map_def Let_def process_fmap_pending)

lemma kept_put:
  assumes "outp S = b + 4 * of_nat d" and "d + j < hi" and "kept_but P b hi m (mem S)"
  shows "kept_but P b hi m (mem (put j w S))"
proof -
  have e: "outp S + 4 * of_nat j = b + 4 * of_nat (d + j)"
    by (simp add: assms(1) algebra_simps)
  show ?thesis
    unfolding put_sel e by (rule kept_upd [OF assms(2,3)])
qed

lemma nops_mem_frame:
  "\<forall>j<k. a \<noteq> outp s + 4 * of_nat j \<Longrightarrow> mem (nops k s) a = mem s a"
proof (induction k arbitrary: s)
  case 0
  then show ?case by simp
next
  case (Suc k)
  let ?s1 = "advance 1 (put 0 A64_NOP s)"
  have e: "outp ?s1 + 4 * of_nat j = outp s + 4 * of_nat (Suc j)" for j
    by (simp add: algebra_simps)
  have "\<forall>j<k. a \<noteq> outp ?s1 + 4 * of_nat j"
    unfolding e using Suc.prems by auto
  then have "mem (nops k ?s1) a = mem ?s1 a"
    by (rule Suc.IH)
  moreover have "a \<noteq> outp s"
    using Suc.prems [rule_format, of 0] by simp
  ultimately show ?case by simp
qed

lemma kept_nops:
  assumes "outp S = b + 4 * of_nat d" and "d + k \<le> hi" and "kept_but P b hi m (mem S)"
  shows "kept_but P b hi m (mem (nops k S))"
proof -
  have "mem (nops k S) a = mem S a" if "\<forall>j<hi. a \<noteq> b + 4 * of_nat j" for a
  proof (rule nops_mem_frame, intro allI impI)
    fix j assume "j < k"
    then have "d + j < hi" using assms(2) by simp
    then have "a \<noteq> b + 4 * of_nat (d + j)" using that by blast
    then show "a \<noteq> outp S + 4 * of_nat j"
      by (simp add: assms(1) algebra_simps)
  qed
  then show ?thesis
    using assms(3) by (simp add: kept_but_def)
qed

lemma copy_words_frame:
  "\<forall>j<n. a \<noteq> dst + 4 * of_nat j \<Longrightarrow> copy_words n dst src m0 m a = m a"
proof (induction n arbitrary: dst src m)
  case 0
  then show ?case by simp
next
  case (Suc n)
  have e: "dst + 4 + 4 * of_nat j = dst + 4 * of_nat (Suc j)" for j
    by (simp add: algebra_simps)
  have "\<forall>j<n. a \<noteq> dst + 4 + 4 * of_nat j"
    unfolding e using Suc.prems by auto
  then have "copy_words n (dst + 4) (src + 4) m0 (m(dst := m0 src)) a = (m(dst := m0 src)) a"
    by (rule Suc.IH)
  moreover have "a \<noteq> dst"
    using Suc.prems [rule_format, of 0] by simp
  ultimately show ?case by simp
qed

lemma kept_copy:
  assumes "dst = b + 4 * of_nat d" and "d + n \<le> hi" and "kept_but P b hi m m1"
  shows "kept_but P b hi m (copy_words n dst src m0 m1)"
proof -
  have "copy_words n dst src m0 m1 a = m1 a" if "\<forall>j<hi. a \<noteq> b + 4 * of_nat j" for a
  proof (rule copy_words_frame, intro allI impI)
    fix j assume "j < n"
    then have "d + j < hi" using assms(2) by simp
    then have "a \<noteq> b + 4 * of_nat (d + j)" using that by blast
    then show "a \<noteq> dst + 4 * of_nat j"
      by (simp add: assms(1) algebra_simps)
  qed
  then show ?thesis
    using assms(3) by (simp add: kept_but_def)
qed

lemma far_b_kept [simp]:
  "5 \<le> hi \<Longrightarrow> outp s = b \<Longrightarrow> mem s = m \<Longrightarrow> kept_but P b hi m (mem (far_b idx a s))"
  by (auto simp add: far_b_def Let_def store64_def)

lemma far_bl_kept [simp]:
  "6 \<le> hi \<Longrightarrow> outp s = b \<Longrightarrow> mem s = m \<Longrightarrow> kept_but P b hi m (mem (far_bl idx a s))"
  by (auto simp add: far_bl_def Let_def store64_def)

lemma far_cond_kept [simp]:
  "7 \<le> hi \<Longrightarrow> outp s = b \<Longrightarrow> mem s = m \<Longrightarrow> kept_but P b hi m (mem (far_cond lmask i idx a s))"
  by (auto simp add: far_cond_def Let_def store64_def)

lemma ldr_literal_kept [simp]:
  "5 \<le> hi \<Longrightarrow> outp s = b \<Longrightarrow> mem s = m \<Longrightarrow> kept_but P b hi m (mem (ldr_literal i idx a s))"
  by (auto simp add: ldr_literal_def Let_def store64_def)

lemma emitted_finish:
  assumes e: "emitted n lo hi s S"
    and i: "idx = get_ref_ins_index (ctx s) (inp s)"
    and v: "unat idx < length (dat (ctx s))"
  shows "stepped n lo hi s (process_fix_map idx (S\<lparr>inp := inp S + 4\<rparr>))"
    and "stepped n lo hi s ((process_fix_map idx S)\<lparr>inp := inp (process_fix_map idx S) + 4\<rparr>)"
proof -
  have l: "unat idx < length (dat (ctx S))"
    using e v by (simp add: emitted_def)
  have same: "fmap (dat (ctx S) ! unat idx) = fmap (dat (ctx s) ! unat idx)"
    using e unfolding emitted_def i by (metis less_irrefl)
  let ?P = "pending (fmap (dat (ctx s) ! unat idx))"
  have "kept_but {} (outp s) hi (mem s) (mem S)"
    using e by (simp add: emitted_def)
  then have k0: "kept_but ?P (outp s) hi (mem s) (mem S)"
    by (simp add: kept_but_def)
  have k1: "kept_but ?P (outp s) hi (mem S) (mem (process_fix_map idx S))"
    using process_fix_map_kept [of S idx "outp s" hi] unfolding same .
  have k2: "kept_but ?P (outp s) hi (mem S) (mem (process_fix_map idx (S\<lparr>inp := inp S + 4\<rparr>)))"
    using process_fix_map_kept [of "S\<lparr>inp := inp S + 4\<rparr>" idx "outp s" hi] same by simp
  note k = kept_trans [OF k0 k1] kept_trans [OF k0 k2]
  show "stepped n lo hi s (process_fix_map idx (S\<lparr>inp := inp S + 4\<rparr>))"
    unfolding stepped_def i [symmetric]
    using e l same k unfolding emitted_def i [symmetric]
    by (auto simp add: process_fix_map_fmap)
  show "stepped n lo hi s ((process_fix_map idx S)\<lparr>inp := inp (process_fix_map idx S) + 4\<rparr>)"
    unfolding stepped_def i [symmetric]
    using e l same k unfolding emitted_def i [symmetric]
    by (auto simp add: process_fix_map_fmap)
qed

lemma emitted_start:
  "emitted n 0 0 s (s\<lparr>ctx := reset_current_ins (ctx s) idx (outp s)\<rparr>)"
  by (simp add: emitted_def)

lemma emittedI:
  assumes "inp S = inp s" and "outp S = outp s + 4 * of_nat k" and "lo \<le> k" and "k \<le> hi"
    and "basep (ctx S) = basep (ctx s)" and "endp (ctx S) = endp (ctx s)"
    and "length (dat (ctx S)) = length (dat (ctx s))"
    and "kept_but {} (outp s) hi (mem s) (mem S)"
    and "\<forall>j. fmap (dat (ctx S) ! j) = fmap (dat (ctx s) ! j) \<or>
          (unat (get_ref_ins_index (ctx s) (inp s)) < j \<and> j < n \<and>
           (\<exists>l a. fmap (dat (ctx S) ! j) =
                    insert_fmap (fmap (dat (ctx s) ! j)) \<lparr>bp = outp s, ls = l, ad = a\<rparr>))"
  shows "emitted n lo hi s S"
  using assms unfolding emitted_def by blast

text \<open>Emission steps that leave the lists alone: only the cursor moves.\<close>

lemma emitted_plain:
  assumes "inp S = inp s" and "outp S = outp s + 4 * of_nat k" and "lo \<le> k" and "k \<le> hi"
    and "basep (ctx S) = basep (ctx s)" and "endp (ctx S) = endp (ctx s)"
    and "length (dat (ctx S)) = length (dat (ctx s))"
    and "kept_but {} (outp s) hi (mem s) (mem S)"
    and "\<And>j. fmap (dat (ctx S) ! j) = fmap (dat (ctx s) ! j)"
  shows "emitted n lo hi s S"
  using assms unfolding emitted_def by blast


lemma window_index:
  assumes "window_ok c n" and "is_in_fixing_range c a"
  shows "unat (get_ref_ins_index c a) < n"
proof -
  from assms have "basep c \<le>s a" "a <s basep c + 4 * of_nat n" "n \<le> 5"
    by (simp_all add: window_ok_def is_in_fixing_range_def A64_MAX_INSTRUCTIONS_def)
  then show ?thesis
    unfolding get_ref_ins_index_def by (rule in_window_index)
qed

lemma sint_small:
  fixes x :: "64 word"
  assumes "unat x < 5"
  shows "sint x = int (unat x)"
proof -
  have "uint x < 5"
    by (subst uint_nat) (use assms in linarith)
  then have "sint x = uint x"
    using sint_uint_cases [of x] by (elim disjE conjE) linarith+
  then show ?thesis
    by (simp only: uint_nat)
qed

lemma signed_small:
  fixes x y :: "64 word"
  assumes "unat x < 5" and "unat y < 5"
  shows "x \<le>s y \<longleftrightarrow> unat x \<le> unat y"
  unfolding word_sle_eq sint_small [OF assms(1)] sint_small [OF assms(2)]
  by (rule of_nat_le_iff)

lemma insert_fix_map_Some:
  "unat idx < length (dat c) \<Longrightarrow>
   insert_fix_map c idx b l a =
     Some (c\<lparr>dat := (dat c)[unat idx := (dat c ! unat idx)
             \<lparr>fmap := insert_fmap (fmap (dat c ! unat idx)) \<lparr>bp = b, ls = l, ad = a\<rparr>\<rparr>]\<rparr>)"
  by (simp add: insert_fix_map_def)

lemma fix_in_window_ok:
  assumes w: "window_ok (ctx s) n"
    and r: "unat (get_ref_ins_index (ctx s) a) < n"
    and i: "unat idx < n"
  shows "\<exists>off S. fix_in_window idx a sh l m s = Some (off, S) \<and>
           inp S = inp s \<and> outp S = outp s \<and> mem S = mem s \<and>
           basep (ctx S) = basep (ctx s) \<and> endp (ctx S) = endp (ctx s) \<and>
           length (dat (ctx S)) = length (dat (ctx s)) \<and>
           (\<forall>j. fmap (dat (ctx S) ! j) = fmap (dat (ctx s) ! j) \<or>
                (unat idx < j \<and> j < n \<and>
                 fmap (dat (ctx S) ! j) =
                   insert_fmap (fmap (dat (ctx s) ! j)) \<lparr>bp = outp s, ls = l, ad = m\<rparr>))"
proof -
  define ref where "ref = get_ref_ins_index (ctx s) a"
  have n: "n \<le> 5" "length (dat (ctx s)) = 5"
    using w by (simp_all add: window_ok_def A64_MAX_INSTRUCTIONS_def)
  have rl: "unat ref < length (dat (ctx s))" "unat ref < 5" "unat idx < 5"
    using r i n by (simp_all add: ref_def)
  show ?thesis
  proof (cases "ref \<le>s idx")
    case True
    then show ?thesis
      using rl by (simp add: fix_in_window_def Let_def dat_at_def ref_def [symmetric])
  next
    case False
    then have lt: "unat idx < unat ref"
      using signed_small [OF rl(2) rl(3)] by simp
    show ?thesis
      using False rl lt r
      by (simp add: fix_in_window_def Let_def insert_fix_map_Some ref_def [symmetric] nth_list_update)
  qed
qed

lemma far_b_sel:
  "inp (far_b idx a s) = inp s"
  "outp (far_b idx a s) = (if (outp s + 8) AND 7 \<noteq> 0 then outp s + 20 else outp s + 16)"
  "ctx (far_b idx a s) =
     (if (outp s + 8) AND 7 \<noteq> 0 then reset_current_ins (ctx s) idx (outp s + 4) else ctx s)"
  by (simp_all add: far_b_def Let_def)

lemma emitted_far_b:
  "emitted n 1 6 s (far_b idx a (s\<lparr>ctx := reset_current_ins (ctx s) idx (outp s)\<rparr>))"
proof (cases "(outp s + 8) AND 7 \<noteq> 0")
  case True
  then show ?thesis
    by (intro emitted_plain [where k = 5]) (simp_all add: far_b_sel)
next
  case False
  then show ?thesis
    by (intro emitted_plain [where k = 4]) (simp_all add: far_b_sel)
qed

lemma emitted_far_bl:
  "emitted n 1 6 s (far_bl idx a (s\<lparr>ctx := reset_current_ins (ctx s) idx (outp s)\<rparr>))"
proof (cases "(outp s + 8) AND 7 = 0")
  case True
  then show ?thesis
    by (intro emitted_plain [where k = 6]) (simp_all add: far_bl_sel)
next
  case False
  then show ?thesis
    by (intro emitted_plain [where k = 5]) (simp_all add: far_bl_sel)
qed

lemma emitted_far_cond:
  "emitted n 1 7 s (far_cond lmask i idx a (s\<lparr>ctx := reset_current_ins (ctx s) idx (outp s)\<rparr>))"
proof (cases "(outp s + 16) AND 7 \<noteq> 0")
  case True
  then show ?thesis
    by (intro emitted_plain [where k = 7]) (simp_all add: far_cond_sel)
next
  case False
  then show ?thesis
    by (intro emitted_plain [where k = 6]) (simp_all add: far_cond_sel)
qed

lemma emitted_ldr_literal:
  "emitted n 1 5 s (ldr_literal i idx a (s\<lparr>ctx := reset_current_ins (ctx s) idx (outp s)\<rparr>))"
proof (cases "(outp s + 8) AND 7 \<noteq> 0")
  case True
  then show ?thesis
    by (intro emitted_plain [where k = 5]) (simp_all add: ldr_literal_sel)
next
  case False
  then show ?thesis
    by (intro emitted_plain [where k = 4]) (simp_all add: ldr_literal_sel)
qed

text \<open>One word written after the shared in-window block, or without it.\<close>

lemma emitted_one_word:
  assumes w: "window_ok (ctx s) n"
    and i: "idx = get_ref_ins_index (ctx s) (inp s)" "unat idx < n"
    and r: "special \<Longrightarrow> unat (get_ref_ins_index (ctx s) a) < n"
  shows "\<exists>off S.
           (special \<longrightarrow>
              fix_in_window idx a sh l m (s\<lparr>ctx := reset_current_ins (ctx s) idx (outp s)\<rparr>) = Some (off, S)) \<and>
           (\<not> special \<longrightarrow> off = off0 \<and> S = s\<lparr>ctx := reset_current_ins (ctx s) idx (outp s)\<rparr>) \<and>
           (\<forall>v. emitted n 1 1 s (advance 1 (put 0 (v off) S)))"
proof (cases special)
  case True
  let ?s0 = "s\<lparr>ctx := reset_current_ins (ctx s) idx (outp s)\<rparr>"
  have w0: "window_ok (ctx ?s0) n"
    using w by (simp add: window_ok_def)
  have r0: "unat (get_ref_ins_index (ctx ?s0) a) < n"
    using r [OF True] by (simp add: get_ref_ins_index_def)
  obtain off S where f: "fix_in_window idx a sh l m ?s0 = Some (off, S)"
    and p: "inp S = inp ?s0" "outp S = outp ?s0" "basep (ctx S) = basep (ctx ?s0)"
      "endp (ctx S) = endp (ctx ?s0)" "length (dat (ctx S)) = length (dat (ctx ?s0))"
      "mem S = mem ?s0"
    and q: "\<forall>j. fmap (dat (ctx S) ! j) = fmap (dat (ctx ?s0) ! j) \<or>
                (unat idx < j \<and> j < n \<and>
                 fmap (dat (ctx S) ! j) =
                   insert_fmap (fmap (dat (ctx ?s0) ! j)) \<lparr>bp = outp ?s0, ls = l, ad = m\<rparr>)"
    using fix_in_window_ok [OF w0 r0 i(2), of sh l m] by blast
  have p': "inp S = inp s" "outp S = outp s" "basep (ctx S) = basep (ctx s)"
      "endp (ctx S) = endp (ctx s)" "length (dat (ctx S)) = length (dat (ctx s))"
      "mem S = mem s"
    using p by simp_all
  have c0: "fmap (dat (ctx ?s0) ! j) = fmap (dat (ctx s) ! j)" "outp ?s0 = outp s" for j
    by simp_all
  have q': "\<forall>j. fmap (dat (ctx S) ! j) = fmap (dat (ctx s) ! j) \<or>
                (unat idx < j \<and> j < n \<and>
                 (\<exists>l a. fmap (dat (ctx S) ! j) =
                   insert_fmap (fmap (dat (ctx s) ! j)) \<lparr>bp = outp s, ls = l, ad = a\<rparr>))"
    using q unfolding c0 by (intro allI) (metis (no_types))
  have "emitted n 1 1 s (advance 1 (put 0 (v off) S))" for v
  proof (rule emittedI [where k = 1])
    show "\<forall>j. fmap (dat (ctx (advance 1 (put 0 (v off) S))) ! j) = fmap (dat (ctx s) ! j) \<or>
          (unat (get_ref_ins_index (ctx s) (inp s)) < j \<and> j < n \<and>
           (\<exists>l a. fmap (dat (ctx (advance 1 (put 0 (v off) S))) ! j) =
                    insert_fmap (fmap (dat (ctx s) ! j)) \<lparr>bp = outp s, ls = l, ad = a\<rparr>))"
      unfolding advance_sel put_sel i(1) [symmetric] by (rule q')
  qed (simp_all add: p')
  then show ?thesis
    using True f by blast
next
  case False
  have "emitted n 1 1 s (advance 1 (put 0 (v off0) (s\<lparr>ctx := reset_current_ins (ctx s) idx (outp s)\<rparr>)))" for v
    by (intro emitted_plain [where k = 1]) simp_all
  then show ?thesis
    using False by blast
qed


lemma emitted_mono:
  "emitted n lo hi s S \<Longrightarrow> lo' \<le> lo \<Longrightarrow> hi \<le> hi' \<Longrightarrow> emitted n lo' hi' s S"
  unfolding emitted_def by (meson le_trans kept_mono)

lemma stepped_mono:
  "stepped n lo hi s S \<Longrightarrow> lo' \<le> lo \<Longrightarrow> hi \<le> hi' \<Longrightarrow> stepped n lo' hi' s S"
  unfolding stepped_def by (meson le_trans kept_mono)

lemma window_current:
  "window_ok (ctx s) n \<Longrightarrow> unat (get_ref_ins_index (ctx s) (inp s)) < n \<Longrightarrow>
   unat (get_ref_ins_index (ctx s) (inp s)) < length (dat (ctx s))"
  by (simp add: window_ok_def)

lemma fix_branch_imm_ok:
  assumes w: "window_ok (ctx s) n"
    and i: "unat (get_ref_ins_index (ctx s) (inp s)) < n"
  shows "(\<exists>s'. fix_branch_imm s = Some (True, s') \<and> stepped n 1 6 s s') \<or>
         fix_branch_imm s = Some (False, s)"
proof (cases "mem s (inp s) AND 0xfc000000 = op_b \<or> mem s (inp s) AND 0xfc000000 = op_bl")
  case False
  then have "fix_branch_imm s = Some (False, s)"
    by (simp add: fix_branch_imm_def Let_def)
  then show ?thesis by simp
next
  case True
  define idx where "idx = get_ref_ins_index (ctx s) (inp s)"
  define a where "a = branch_imm_target (inp s) (mem s (inp s))"
  define opc where "opc = mem s (inp s) AND 0xfc000000"
  let ?s0 = "s\<lparr>ctx := reset_current_ins (ctx s) idx (outp s)\<rparr>"
  note v = window_current [OF w i, folded idx_def]
  have g: "get_and_set_current_index (ctx s) (inp s) (outp s) =
             Some (idx, reset_current_ins (ctx s) idx (outp s))"
    unfolding idx_def using window_current [OF w i] by (rule get_and_set_Some)
  show ?thesis
  proof (cases "\<not> is_in_fixing_range (ctx s) a \<and>
                 drop_bit 1 0x03ffffff \<le>s llabs (signed_drop_bit 2 (a - outp s))")
    case far: True
    define S where "S = (if opc = op_b then far_b idx a ?s0 else far_bl idx a ?s0)"
    have "emitted n 1 6 s S"
      unfolding S_def using emitted_far_b [of n s idx a] emitted_far_bl [of n s idx a] by simp
    then have "stepped n 1 6 s (process_fix_map idx (S\<lparr>inp := inp S + 4\<rparr>))"
      using idx_def v by (rule emitted_finish(1))
    moreover have "fix_branch_imm s = Some (True, process_fix_map idx (S\<lparr>inp := inp S + 4\<rparr>))"
      using True far g
      by (simp add: fix_branch_imm_def Let_def S_def a_def [symmetric] opc_def [symmetric])
    ultimately show ?thesis by simp
  next
    case near: False
    obtain off S where
      f: "is_in_fixing_range (ctx s) a \<longrightarrow> fix_in_window idx a 2 0 0x03ffffff ?s0 = Some (off, S)"
         "\<not> is_in_fixing_range (ctx s) a \<longrightarrow> off = signed_drop_bit 2 (a - outp s) \<and> S = ?s0"
      and e: "\<forall>v. emitted n 1 1 s (advance 1 (put 0 (v off) S))"
      using emitted_one_word [OF w idx_def i [folded idx_def] window_index [OF w],
          of "is_in_fixing_range (ctx s) a" a 2 0 "0x03ffffff" "signed_drop_bit 2 (a - outp s)"]
      by blast
    define S1 where "S1 = advance 1 (put 0 (opc OR ucast (off AND 0x03ffffff)) S)"
    have "emitted n 1 1 s S1"
      unfolding S1_def using e [rule_format, of "\<lambda>off. opc OR ucast (off AND 0x03ffffff)"] .
    then have "emitted n 1 6 s S1"
      by (rule emitted_mono) simp_all
    then have "stepped n 1 6 s (process_fix_map idx (S1\<lparr>inp := inp S1 + 4\<rparr>))"
      using idx_def v by (rule emitted_finish(1))
    moreover have "fix_branch_imm s = Some (True, process_fix_map idx (S1\<lparr>inp := inp S1 + 4\<rparr>))"
      using True near g f
      by (auto simp add: fix_branch_imm_def Let_def S1_def a_def [symmetric] opc_def [symmetric])
    ultimately show ?thesis by simp
  qed
qed


lemma fix_cond_comp_test_branch_ok:
  assumes w: "window_ok (ctx s) n"
    and i: "unat (get_ref_ins_index (ctx s) (inp s)) < n"
  shows "(\<exists>s'. fix_cond_comp_test_branch s = Some (True, s') \<and> stepped n 1 7 s s') \<or>
         fix_cond_comp_test_branch s = Some (False, s)"
proof (cases "cond_lmask (mem s (inp s))")
  case None
  then have "fix_cond_comp_test_branch s = Some (False, s)"
    by (simp add: fix_cond_comp_test_branch_def Let_def)
  then show ?thesis by simp
next
  case (Some lmask)
  define idx where "idx = get_ref_ins_index (ctx s) (inp s)"
  define a where "a = cond_target lmask (inp s) (mem s (inp s))"
  let ?s0 = "s\<lparr>ctx := reset_current_ins (ctx s) idx (outp s)\<rparr>"
  note v = window_current [OF w i, folded idx_def]
  have g: "get_and_set_current_index (ctx s) (inp s) (outp s) =
             Some (idx, reset_current_ins (ctx s) idx (outp s))"
    unfolding idx_def using window_current [OF w i] by (rule get_and_set_Some)
  show ?thesis
  proof (cases "\<not> is_in_fixing_range (ctx s) a \<and>
                 ucast (drop_bit (5 + 1) (NOT lmask)) \<le>s llabs (signed_drop_bit 2 (a - outp s))")
    case far: True
    define S where "S = far_cond lmask (mem s (inp s)) idx a ?s0"
    have "emitted n 1 7 s S"
      unfolding S_def by (rule emitted_far_cond)
    then have "stepped n 1 7 s (process_fix_map idx (S\<lparr>inp := inp S + 4\<rparr>))"
      using idx_def v by (rule emitted_finish(1))
    moreover have "fix_cond_comp_test_branch s = Some (True, process_fix_map idx (S\<lparr>inp := inp S + 4\<rparr>))"
      using Some far g
      by (simp add: fix_cond_comp_test_branch_def Let_def S_def a_def [symmetric])
    ultimately show ?thesis by simp
  next
    case near: False
    obtain off S where
      f: "is_in_fixing_range (ctx s) a \<longrightarrow> fix_in_window idx a 2 5 (NOT lmask) ?s0 = Some (off, S)"
         "\<not> is_in_fixing_range (ctx s) a \<longrightarrow> off = signed_drop_bit 2 (a - outp s) \<and> S = ?s0"
      and e: "\<forall>v. emitted n 1 1 s (advance 1 (put 0 (v off) S))"
      using emitted_one_word [OF w idx_def i [folded idx_def] window_index [OF w],
          of "is_in_fixing_range (ctx s) a" a 2 5 "NOT lmask" "signed_drop_bit 2 (a - outp s)"]
      by blast
    define S1 where "S1 = advance 1 (put 0 ((ucast (push_bit 5 off) AND NOT lmask) OR
                                           (mem s (inp s) AND lmask)) S)"
    have "emitted n 1 1 s S1"
      unfolding S1_def
      using e [rule_format, of "\<lambda>off. (ucast (push_bit 5 off) AND NOT lmask) OR (mem s (inp s) AND lmask)"] .
    then have "emitted n 1 7 s S1"
      by (rule emitted_mono) simp_all
    then have "stepped n 1 7 s (process_fix_map idx (S1\<lparr>inp := inp S1 + 4\<rparr>))"
      using idx_def v by (rule emitted_finish(1))
    moreover have "fix_cond_comp_test_branch s = Some (True, process_fix_map idx (S1\<lparr>inp := inp S1 + 4\<rparr>))"
      using Some near g f
      by (auto simp add: fix_cond_comp_test_branch_def Let_def S1_def a_def [symmetric])
    ultimately show ?thesis by simp
  qed
qed

lemma and_not_low: "a AND NOT m = a - (a AND m)" for a m :: "64 word"
proof -
  have "NOT a AND (a AND m) = 0"
    by (simp add: bit_eq_iff bit_and_iff bit_not_iff)
  then have "a - (a AND m) = a AND NOT (a AND m)"
    by (rule disjunctive_diff_eq_and_not)
  also have "\<dots> = a AND NOT m"
    by (auto simp add: bit_eq_iff bit_and_iff bit_not_iff bit_or_iff)
  finally show ?thesis
    by simp
qed

lemma window_index_masked:
  assumes w: "window_ok c n" and r: "is_in_fixing_range c a"
  shows "get_ref_ins_index c (a AND NOT 3) = get_ref_ins_index c a"
proof -
  define b where "b = basep c"
  define d where "d = a - b"
  have bl: "uint b mod 4 = 0"
    using w by (simp add: window_ok_def b_def and_3_iff)
  have split: "a AND NOT 3 = a - (a AND 3)"
    by (rule and_not_low)
  have low: "uint (a AND 3) = uint a mod 4"
  proof -
    have "a AND 3 = take_bit 2 a"
      by (simp add: take_bit_eq_mask mask_eq_exp_minus_1)
    then show ?thesis
      by (simp add: take_bit_eq_mod uint_mod_distrib)
  qed
  have "uint d mod 4 = (uint a - uint b) mod 4"
    unfolding d_def by (simp add: uint_word_ariths mod_mod_cancel)
  also have "\<dots> = uint a mod 4"
    using bl by (metis diff_zero mod_diff_right_eq)
  finally have dm: "uint d mod 4 = uint (a AND 3)"
    using low by simp
  have "uint (a AND 3) \<le> uint d"
    unfolding dm [symmetric] by (simp add: zmod_le_nonneg_dividend)
  then have "uint (d - (a AND 3)) = uint d - uint d mod 4"
    unfolding dm by (simp add: uint_sub_lem)
  then have "uint (d - (a AND 3)) div 4 = uint d div 4"
    by (simp add: minus_mod_eq_mult_div)
  then have "uint ((d - (a AND 3)) div 4) = uint (d div 4)"
    by (simp add: uint_div_distrib)
  then have q: "(d - (a AND 3)) div 4 = d div 4"
    by (simp only: word_uint_eq_iff)
  have e2: "(a AND NOT 3) - b = d - (a AND 3)"
    unfolding split d_def by (rule diff_right_commute)
  have "((a AND NOT 3) - b) div 4 = (a - b) div 4"
    unfolding e2 q unfolding d_def by (rule refl)
  then show ?thesis
    unfolding get_ref_ins_index_def b_def .
qed


lemma fix_pcreladdr_ok:
  assumes w: "window_ok (ctx s) n"
    and i: "unat (get_ref_ins_index (ctx s) (inp s)) < n"
  shows "(\<exists>s'. fix_pcreladdr s = Some (True, s') \<and> stepped n 1 5 s s') \<or>
         fix_pcreladdr s = Some (False, s)"
proof -
  define idx where "idx = get_ref_ins_index (ctx s) (inp s)"
  define ins0 where "ins0 = mem s (inp s)"
  let ?s0 = "s\<lparr>ctx := reset_current_ins (ctx s) idx (outp s)\<rparr>"
  note v = window_current [OF w i, folded idx_def]
  have g: "get_and_set_current_index (ctx s) (inp s) (outp s) =
             Some (idx, reset_current_ins (ctx s) idx (outp s))"
    unfolding idx_def using window_current [OF w i] by (rule get_and_set_Some)
  consider (adr) "ins0 AND 0x9f000000 = op_adr"
    | (adrp) "ins0 AND 0x9f000000 \<noteq> op_adr" "ins0 AND 0x9f000000 = op_adrp"
    | (other) "ins0 AND 0x9f000000 \<noteq> op_adr" "ins0 AND 0x9f000000 \<noteq> op_adrp"
    by blast
  then show ?thesis
  proof cases
    case other
    then have "fix_pcreladdr s = Some (False, s)"
      by (simp add: fix_pcreladdr_def Let_def ins0_def)
    then show ?thesis by simp
  next
    case adrp
    define a where "a = adrp_target (inp s) ins0"
    define S where "S = (if is_in_fixing_range (ctx s) a then advance 1 (put 0 ins0 ?s0)
                         else ldr_literal ins0 idx a ?s0)"
    have "emitted n 1 1 s (advance 1 (put 0 ins0 ?s0))"
      by (intro emitted_plain [where k = 1]) simp_all
    then have "emitted n 1 5 s (advance 1 (put 0 ins0 ?s0))"
      by (rule emitted_mono) simp_all
    then have "emitted n 1 5 s S"
      unfolding S_def using emitted_ldr_literal [of n s ins0 idx a] by simp
    then have "stepped n 1 5 s ((process_fix_map idx S)\<lparr>inp := inp (process_fix_map idx S) + 4\<rparr>)"
      using idx_def v by (rule emitted_finish(2))
    moreover have "fix_pcreladdr s =
        Some (True, (process_fix_map idx S)\<lparr>inp := inp (process_fix_map idx S) + 4\<rparr>)"
      using adrp g
      by (simp add: fix_pcreladdr_def Let_def S_def a_def ins0_def)
    ultimately show ?thesis by simp
  next
    case adr
    define a where "a = adr_target (inp s) ins0"
    show ?thesis
    proof (cases "\<not> is_in_fixing_range (ctx s) a \<and> drop_bit 1 0x001fffff \<le>s llabs (a - outp s)")
      case far: True
      define S where "S = ldr_literal ins0 idx a ?s0"
      have "emitted n 1 5 s S"
        unfolding S_def by (rule emitted_ldr_literal)
      then have "stepped n 1 5 s ((process_fix_map idx S)\<lparr>inp := inp (process_fix_map idx S) + 4\<rparr>)"
        using idx_def v by (rule emitted_finish(2))
      moreover have "fix_pcreladdr s =
          Some (True, (process_fix_map idx S)\<lparr>inp := inp (process_fix_map idx S) + 4\<rparr>)"
        using adr far g
        by (simp add: fix_pcreladdr_def Let_def S_def a_def ins0_def)
      ultimately show ?thesis by simp
    next
      case near: False
      have r: "is_in_fixing_range (ctx s) a \<Longrightarrow> unat (get_ref_ins_index (ctx s) (a AND NOT 3)) < n"
        using window_index [OF w] window_index_masked [OF w] by simp
      obtain off S where
        f: "is_in_fixing_range (ctx s) a \<longrightarrow>
              fix_in_window idx (a AND NOT 3) 0 5 0x00ffffff ?s0 = Some (off, S)"
           "\<not> is_in_fixing_range (ctx s) a \<longrightarrow> off = a - outp s \<and> S = ?s0"
        and e: "\<forall>v. emitted n 1 1 s (advance 1 (put 0 (v off) S))"
        using emitted_one_word [OF w idx_def i [folded idx_def] r,
            of "is_in_fixing_range (ctx s) a" 0 5 "0x00ffffff" "a - outp s"]
        by blast
      define S1 where "S1 = advance 1 (put 0 ((ucast (push_bit (5 - 2) off) AND 0x00ffffff) OR
                                             (ins0 AND 0xff00001f)) S)"
      have "emitted n 1 1 s S1"
        unfolding S1_def
        using e [rule_format, of "\<lambda>off. (ucast (push_bit (5 - 2) off) AND 0x00ffffff) OR (ins0 AND 0xff00001f)"] .
      then have "emitted n 1 5 s S1"
        by (rule emitted_mono) simp_all
      then have "stepped n 1 5 s ((process_fix_map idx S1)\<lparr>inp := inp (process_fix_map idx S1) + 4\<rparr>)"
        using idx_def v by (rule emitted_finish(2))
      moreover have "fix_pcreladdr s =
          Some (True, (process_fix_map idx S1)\<lparr>inp := inp (process_fix_map idx S1) + 4\<rparr>)"
        using adr near g f
        by (auto simp add: fix_pcreladdr_def Let_def S1_def a_def [symmetric] ins0_def [symmetric])
      ultimately show ?thesis by simp
    qed
  qed
qed


lemma loadlit_class_cases:
  "loadlit_class i = Some (msk, fa) \<Longrightarrow> fa = 3 \<or> fa = 7 \<or> fa = 15"
  by (auto simp add: loadlit_class_def Let_def split: if_splits)

lemma inline_literal_ok:
  assumes al: "outp s AND 3 = 0" and fa: "fa = 3 \<or> fa = 7 \<or> fa = 15"
  shows "\<exists>S k. inline_literal msk i fa idx a s = Some S \<and> inp S = inp s \<and>
           3 \<le> k \<and> k \<le> 9 \<and> outp S = outp s + 4 * of_nat k \<and>
           basep (ctx S) = basep (ctx s) \<and> endp (ctx S) = endp (ctx s) \<and>
           length (dat (ctx S)) = length (dat (ctx s)) \<and>
           kept_but {} (outp s) 9 (mem s) (mem S) \<and>
           (\<forall>j. fmap (dat (ctx S) ! j) = fmap (dat (ctx s) ! j))"
proof -
  obtain k where k: "k \<le> 3" "pad_inline fa s = Some (nops k s)"
    using pad_inline_total [OF al fa] by blast
  define ns where "ns = unat ((fa + 1) div 4)"
  have ns: "1 \<le> ns" "ns \<le> 4"
    using fa by (auto simp add: ns_def)
  define S where "S = the (inline_literal msk i fa idx a s)"
  have r: "inline_literal msk i fa idx a s = Some S"
    unfolding S_def using k(2) by (simp add: inline_literal_def Let_def)
  have o: "outp S = outp s + 4 * of_nat (k + 2 + ns)"
    unfolding S_def using k(2) by (simp add: inline_literal_def Let_def ns_def algebra_simps)
  have rest: "inp S = inp s" "basep (ctx S) = basep (ctx s)" "endp (ctx S) = endp (ctx s)"
    "length (dat (ctx S)) = length (dat (ctx s))" "fmap (dat (ctx S) ! j) = fmap (dat (ctx s) ! j)" for j
    unfolding S_def using k(2) by (simp_all add: inline_literal_def Let_def)
  define s2 where "s2 = (nops k s)\<lparr>ctx := reset_current_ins (ctx (nops k s)) idx (outp (nops k s))\<rparr>"
  define s3 where "s3 = put 1 (0x14000001 + ucast ((fa + 1) div 4))
                  (put 0 ((push_bit 5 (drop_bit 2 8) AND NOT msk) OR (i AND 0xff00001f)) s2)"
  have m: "mem S = copy_words ns (outp s3 + 4 * 2) a (mem s3) (mem s3)"
    unfolding S_def using k(2) by (simp add: inline_literal_def Let_def s2_def s3_def ns_def)
  have o2: "outp s2 = outp s + 4 * of_nat k" "outp (put 0 w s2) = outp s + 4 * of_nat k" for w
    by (simp_all add: s2_def)
  have "kept_but {} (outp s) 9 (mem s) (mem (nops k s))"
    using k(1) by (intro kept_nops [where d = 0]) simp_all
  then have "kept_but {} (outp s) 9 (mem s) (mem s2)"
    by (simp add: s2_def)
  then have "kept_but {} (outp s) 9 (mem s) (mem (put 0 w s2))" for w
    using k(1) by (intro kept_put [where d = k and j = 0] o2) simp_all
  then have k3: "kept_but {} (outp s) 9 (mem s) (mem s3)"
    unfolding s3_def using k(1) by (intro kept_put [where d = k and j = 1] o2) simp_all
  have "outp s3 + 4 * 2 = outp s + 4 * of_nat (k + 2)"
    by (simp add: s3_def o2 algebra_simps)
  then have mk: "kept_but {} (outp s) 9 (mem s) (mem S)"
    unfolding m using k(1) ns(2) k3 by (intro kept_copy [where d = "k + 2"]) simp_all
  have "3 \<le> k + 2 + ns" "k + 2 + ns \<le> 9"
    using k(1) ns by simp_all
  then show ?thesis
    using r o rest mk by blast
qed

lemma reimm_literal_ok:
  assumes fa: "fa = 3 \<or> fa = 7 \<or> fa = 15"
  shows "\<exists>S k. reimm_literal msk i fa idx a (signed_drop_bit 2 (a - outp s)) s = Some S \<and>
           inp S = inp s \<and> 1 \<le> k \<and> k \<le> 4 \<and> outp S = outp s + 4 * of_nat k \<and>
           basep (ctx S) = basep (ctx s) \<and> endp (ctx S) = endp (ctx s) \<and>
           length (dat (ctx S)) = length (dat (ctx s)) \<and>
           kept_but {} (outp s) 9 (mem s) (mem S) \<and>
           (\<forall>j. fmap (dat (ctx S) ! j) = fmap (dat (ctx s) ! j))"
proof -
  have fa': "drop_bit 2 fa = 0 \<or> drop_bit 2 fa = 1 \<or> drop_bit 2 fa = 3"
    using fa by auto
  obtain k off where k: "k \<le> 3"
    "pad_reimm a (drop_bit 2 fa) (signed_drop_bit 2 (a - outp s)) s = Some (off, nops k s)"
    using pad_reimm_total [OF fa', of a s] by blast
  define S where "S = the (reimm_literal msk i fa idx a (signed_drop_bit 2 (a - outp s)) s)"
  have r: "reimm_literal msk i fa idx a (signed_drop_bit 2 (a - outp s)) s = Some S"
    unfolding S_def using k(2) by (simp add: reimm_literal_def Let_def)
  have o: "outp S = outp s + 4 * of_nat (k + 1)"
    unfolding S_def using k(2) by (simp add: reimm_literal_def Let_def algebra_simps)
  have rest: "inp S = inp s" "basep (ctx S) = basep (ctx s)" "endp (ctx S) = endp (ctx s)"
    "length (dat (ctx S)) = length (dat (ctx s))" "fmap (dat (ctx S) ! j) = fmap (dat (ctx s) ! j)" for j
    unfolding S_def using k(2) by (simp_all add: reimm_literal_def Let_def)
  define s2 where "s2 = (nops k s)\<lparr>ctx := reset_current_ins (ctx (nops k s)) idx (outp (nops k s))\<rparr>"
  have m: "mem S = mem (put 0 ((ucast (push_bit 5 off) AND NOT msk) OR (i AND 0xff00001f)) s2)"
    unfolding S_def using k(2) by (simp add: reimm_literal_def Let_def s2_def)
  have o2: "outp s2 = outp s + 4 * of_nat k"
    by (simp add: s2_def)
  have "kept_but {} (outp s) 9 (mem s) (mem (nops k s))"
    using k(1) by (intro kept_nops [where d = 0]) simp_all
  then have "kept_but {} (outp s) 9 (mem s) (mem s2)"
    by (simp add: s2_def)
  then have mk: "kept_but {} (outp s) 9 (mem s) (mem S)"
    unfolding m using k(1) by (intro kept_put [where d = k and j = 0] o2) simp_all
  have "1 \<le> k + 1" "k + 1 \<le> 4"
    using k(1) by simp_all
  then show ?thesis
    using r o rest mk by blast
qed


lemma fix_loadlit_ok:
  assumes w: "window_ok (ctx s) n"
    and i: "unat (get_ref_ins_index (ctx s) (inp s)) < n"
    and al: "outp s AND 3 = 0"
  shows "(\<exists>s'. fix_loadlit s = Some (True, s') \<and>
            (if mem s (inp s) AND 0xff000000 = 0xd8000000 then stepped n 0 0 s s'
             else stepped n 1 9 s s')) \<or>
         fix_loadlit s = Some (False, s)"
proof -
  define idx where "idx = get_ref_ins_index (ctx s) (inp s)"
  define ins0 where "ins0 = mem s (inp s)"
  let ?s0 = "s\<lparr>ctx := reset_current_ins (ctx s) idx (outp s)\<rparr>"
  note v = window_current [OF w i, folded idx_def]
  have g: "get_and_set_current_index (ctx s) (inp s) (outp s) =
             Some (idx, reset_current_ins (ctx s) idx (outp s))"
    unfolding idx_def using window_current [OF w i] by (rule get_and_set_Some)
  show ?thesis
  proof (cases "ins0 AND 0xff000000 = 0xd8000000")
    case True
    have "emitted n 0 0 s ?s0"
      by (rule emitted_start)
    then have "stepped n 0 0 s ((process_fix_map idx ?s0)\<lparr>inp := inp (process_fix_map idx ?s0) + 4\<rparr>)"
      using idx_def v by (rule emitted_finish(2))
    moreover have "fix_loadlit s =
        Some (True, (process_fix_map idx ?s0)\<lparr>inp := inp (process_fix_map idx ?s0) + 4\<rparr>)"
      using True g by (simp add: fix_loadlit_def Let_def ins0_def)
    ultimately show ?thesis
      using True by (simp add: ins0_def)
  next
    case False
    show ?thesis
    proof (cases "loadlit_class ins0")
      case None
      then have "fix_loadlit s = Some (False, s)"
        using False by (simp add: fix_loadlit_def Let_def ins0_def)
      then show ?thesis by simp
    next
      case (Some p)
      obtain msk fa where p: "p = (msk, fa)"
        by (cases p)
      note fa = loadlit_class_cases [OF Some [unfolded p]]
      define a where "a = loadlit_target (inp s) ins0"
      define inl where "inl \<longleftrightarrow> is_in_fixing_range (ctx s) a \<or>
          ucast (drop_bit (5 + 1) (NOT 0xff00001f :: 32 word))
            \<le> llabs (signed_drop_bit 2 (a - outp s)) + (fa + 1 - 4) div 4"
      define r where "r = (if inl then inline_literal msk ins0 fa idx a ?s0
                           else reimm_literal msk ins0 fa idx a (signed_drop_bit 2 (a - outp s)) ?s0)"
      have al0: "outp ?s0 AND 3 = 0"
        using al by simp
      obtain S k where S: "r = Some S" "inp S = inp ?s0" "1 \<le> k" "k \<le> 9"
        "outp S = outp ?s0 + 4 * of_nat k"
        "basep (ctx S) = basep (ctx ?s0)" "endp (ctx S) = endp (ctx ?s0)"
        "length (dat (ctx S)) = length (dat (ctx ?s0))"
        "\<forall>j. fmap (dat (ctx S) ! j) = fmap (dat (ctx ?s0) ! j)"
        "kept_but {} (outp ?s0) 9 (mem ?s0) (mem S)"
      proof (cases inl)
        case True
        obtain S k where "inline_literal msk ins0 fa idx a ?s0 = Some S \<and> inp S = inp ?s0 \<and>
           3 \<le> k \<and> k \<le> 9 \<and> outp S = outp ?s0 + 4 * of_nat k \<and>
           basep (ctx S) = basep (ctx ?s0) \<and> endp (ctx S) = endp (ctx ?s0) \<and>
           length (dat (ctx S)) = length (dat (ctx ?s0)) \<and>
           kept_but {} (outp ?s0) 9 (mem ?s0) (mem S) \<and>
           (\<forall>j. fmap (dat (ctx S) ! j) = fmap (dat (ctx ?s0) ! j))"
          using inline_literal_ok [OF al0 fa, of msk ins0 idx a] by blast
        then show ?thesis
          using True that [of S k] by (simp add: r_def)
      next
        case False
        obtain S k where "reimm_literal msk ins0 fa idx a (signed_drop_bit 2 (a - outp ?s0)) ?s0 = Some S \<and>
           inp S = inp ?s0 \<and> 1 \<le> k \<and> k \<le> 4 \<and> outp S = outp ?s0 + 4 * of_nat k \<and>
           basep (ctx S) = basep (ctx ?s0) \<and> endp (ctx S) = endp (ctx ?s0) \<and>
           length (dat (ctx S)) = length (dat (ctx ?s0)) \<and>
           kept_but {} (outp ?s0) 9 (mem ?s0) (mem S) \<and>
           (\<forall>j. fmap (dat (ctx S) ! j) = fmap (dat (ctx ?s0) ! j))"
          using reimm_literal_ok [OF fa, of msk ins0 idx a ?s0] by blast
        then show ?thesis
          using False that [of S k] by (simp add: r_def)
      qed
      have "emitted n 1 9 s S"
        using S(2-10) by (intro emitted_plain [where k = k]) simp_all
      then have "stepped n 1 9 s (process_fix_map idx (S\<lparr>inp := inp S + 4\<rparr>))"
        using idx_def v by (rule emitted_finish(1))
      moreover have "fix_loadlit s = Some (True, process_fix_map idx (S\<lparr>inp := inp S + 4\<rparr>))"
        using False Some g S(1)
        by (auto simp add: fix_loadlit_def Let_def ins0_def [symmetric] p r_def inl_def a_def [symmetric]
            split: if_splits)
      ultimately show ?thesis
        using False by (simp add: ins0_def)
    qed
  qed
qed

lemma opaque_copy_ok:
  assumes v: "unat idx < length (dat (ctx s))" and i: "idx = get_ref_ins_index (ctx s) (inp s)"
  shows "stepped n 1 1 s
     ((advance 1 (put 0 w (process_fix_map idx (s\<lparr>ctx := reset_current_ins (ctx s) idx (outp s)\<rparr>))))
        \<lparr>inp := inp s + 4\<rparr>)"
proof -
  have k: "\<exists>k. 1 \<le> k \<and> k \<le> 1 \<and> outp s + 4 = outp s + 4 * word_of_nat k"
    by (rule exI [of _ 1]) simp
  let ?s0 = "s\<lparr>ctx := reset_current_ins (ctx s) idx (outp s)\<rparr>"
  have "kept_but (pending (fmap (dat (ctx s) ! unat idx))) (outp s) 1 (mem s) (mem (process_fix_map idx ?s0))"
    using process_fix_map_kept [of ?s0 idx "outp s" 1] by simp
  then have f: "kept_but (pending (fmap (dat (ctx s) ! unat idx))) (outp s) 1 (mem s)
                  ((mem (process_fix_map idx ?s0))(outp s := w))"
    by simp
  show ?thesis
    unfolding stepped_def i [symmetric]
    using v k f by (simp add: process_fix_map_fmap) blast
qed

lemma fix_one_ok:
  assumes w: "window_ok (ctx s) n"
    and i: "unat (get_ref_ins_index (ctx s) (inp s)) < n"
    and al: "outp s AND 3 = 0"
  shows "\<exists>s'. fix_one s = Some s' \<and> stepped n 0 9 s s'"
proof -
  define idx where "idx = get_ref_ins_index (ctx s) (inp s)"
  note v = window_current [OF w i, folded idx_def]
  have g: "get_and_set_current_index (ctx s) (inp s) (outp s) =
             Some (idx, reset_current_ins (ctx s) idx (outp s))"
    unfolding idx_def using window_current [OF w i] by (rule get_and_set_Some)
  have m: "stepped n lo hi s s' \<Longrightarrow> 0 \<le> lo \<Longrightarrow> hi \<le> 9 \<Longrightarrow> stepped n 0 9 s s'" for lo hi s'
    by (rule stepped_mono)
  from fix_branch_imm_ok [OF w i] show ?thesis
  proof (elim disjE exE conjE)
    fix s' assume "fix_branch_imm s = Some (True, s')" "stepped n 1 6 s s'"
    then show ?thesis
      using m [of 1 6 s'] by (simp add: fix_one_def)
  next
    assume b: "fix_branch_imm s = Some (False, s)"
    from fix_cond_comp_test_branch_ok [OF w i] show ?thesis
    proof (elim disjE exE conjE)
      fix s' assume "fix_cond_comp_test_branch s = Some (True, s')" "stepped n 1 7 s s'"
      then show ?thesis
        using b m [of 1 7 s'] by (simp add: fix_one_def)
    next
      assume c: "fix_cond_comp_test_branch s = Some (False, s)"
      from fix_loadlit_ok [OF w i al] show ?thesis
      proof (elim disjE exE conjE)
        fix s' assume l: "fix_loadlit s = Some (True, s')"
          and "if mem s (inp s) AND 0xff000000 = 0xd8000000 then stepped n 0 0 s s'
               else stepped n 1 9 s s'"
        then have "stepped n 0 9 s s'"
          using m [of 0 0 s'] m [of 1 9 s'] by (simp split: if_splits)
        then show ?thesis
          using b c l by (simp add: fix_one_def)
      next
        assume l: "fix_loadlit s = Some (False, s)"
        from fix_pcreladdr_ok [OF w i] show ?thesis
        proof (elim disjE exE conjE)
          fix s' assume "fix_pcreladdr s = Some (True, s')" "stepped n 1 5 s s'"
          then show ?thesis
            using b c l m [of 1 5 s'] by (simp add: fix_one_def)
        next
          assume p: "fix_pcreladdr s = Some (False, s)"
          let ?s5 = "process_fix_map idx (s\<lparr>ctx := reset_current_ins (ctx s) idx (outp s)\<rparr>)"
          have "stepped n 1 1 s ((advance 1 (put 0 (mem ?s5 (inp ?s5)) ?s5))\<lparr>inp := inp s + 4\<rparr>)"
            using v idx_def by (rule opaque_copy_ok)
          then have "stepped n 0 9 s ((advance 1 (put 0 (mem ?s5 (inp ?s5)) ?s5))\<lparr>inp := inp s + 4\<rparr>)"
            by (rule m) simp_all
          then show ?thesis
            using b c l p g by (simp add: fix_one_def Let_def)
        qed
      qed
    qed
  qed
qed

section \<open>The pending lists over the whole window\<close>

lemma fmap_empty_compact: "fmap_empty fs \<Longrightarrow> compact fs"
  by (cases fs) (simp_all add: fmap_empty_def)

lemma compact_insert: "compact fs \<Longrightarrow> compact (insert_fmap fs e)"
  by (induction fs) (simp_all add: fmap_empty_compact)

lemma compact_process: "compact fs \<Longrightarrow> fmap_empty (fst (process_fmap t fs m))"
  by (induction fs arbitrary: m) (auto simp add: fmap_empty_def Let_def split: if_splits)

lemma index_of_position:
  "i < 5 \<Longrightarrow> unat (((b + 4 * of_nat i) - b) div 4 :: 64 word) = i"
proof -
  assume "i < 5"
  then have "i = 0 \<or> i = 1 \<or> i = 2 \<or> i = 3 \<or> i = 4" by arith
  then show ?thesis by auto
qed

lemma aligned_advance:
  fixes x :: "64 word"
  assumes "x AND 3 = 0"
  shows "(x + 4 * of_nat k) AND 3 = 0"
proof -
  have "uint (4 * of_nat k :: 64 word) mod 4 = 0"
    by (simp add: uint_word_ariths uint_word_of_int mod_mod_cancel)
  moreover have "uint x mod 4 = 0"
    using assms by (simp add: and_3_iff)
  ultimately have "(uint x + uint (4 * of_nat k :: 64 word)) mod 4 = 0"
    by presburger
  then show ?thesis
    by (simp add: and_3_iff uint_add_mod_4)
qed



lemma init_context_inv:
  assumes c: "0 \<le> sint count" "sint count \<le> 5" and i: "i AND 3 = 0" and out: "out AND 3 = 0"
  shows "reloc_inv (nat (sint count)) 0 \<lparr>inp = i, outp = out, ctx = init_context i count, mem = m\<rparr>"
proof -
  have "(of_nat (nat (sint count)) :: 64 word) = of_int (sint count)"
    using c(1) by (rule of_nat_nat)
  also have "\<dots> = scast count"
    by (rule of_int_sint)
  finally have "(scast count :: 64 word) = of_nat (nat (sint count))"
    by (rule sym)
  then have w: "window_ok (init_context i count) (nat (sint count))"
    using c i by (simp add: window_ok_def init_context_def A64_MAX_INSTRUCTIONS_def)
  have e: "fmap_empty (fmap (dat (init_context i count) ! j))" if "j < A64_MAX_INSTRUCTIONS" for j
    using that by (simp add: init_context_def fmap_empty_def list_all_iff)
  show ?thesis
    unfolding reloc_inv_def using w out e by (simp add: fmap_empty_compact init_context_def)
qed

lemma reloc_inv_step:
  assumes v: "reloc_inv n i s" and lt: "i < n"
  shows "\<exists>s'. fix_one s = Some s' \<and> reloc_inv n (Suc i) s'"
proof -
  from v have w: "window_ok (ctx s) n" and p: "inp s = basep (ctx s) + 4 * of_nat i"
    and al: "outp s AND 3 = 0"
    and cp: "\<And>j. j < A64_MAX_INSTRUCTIONS \<Longrightarrow> compact (fmap (dat (ctx s) ! j))"
    and em: "\<And>j. j < A64_MAX_INSTRUCTIONS \<Longrightarrow> j < i \<or> n \<le> j \<Longrightarrow> fmap_empty (fmap (dat (ctx s) ! j))"
    unfolding reloc_inv_def by blast+
  from w have n5: "n \<le> 5"
    by (simp add: window_ok_def A64_MAX_INSTRUCTIONS_def)
  with lt have i5: "i < 5" by simp
  have idx: "unat (get_ref_ins_index (ctx s) (inp s)) = i"
    unfolding get_ref_ins_index_def p using i5 by (rule index_of_position)
  with lt have il: "unat (get_ref_ins_index (ctx s) (inp s)) < n" by simp
  from fix_one_ok [OF w il al] obtain s' where f: "fix_one s = Some s'" and st: "stepped n 0 9 s s'"
    by blast
  from st obtain k where i': "inp s' = inp s + 4" and o': "outp s' = outp s + 4 * of_nat k"
    and b': "basep (ctx s') = basep (ctx s)" and e': "endp (ctx s') = endp (ctx s)"
    and l': "length (dat (ctx s')) = length (dat (ctx s))"
    unfolding stepped_def by blast
  from st obtain t m where cur: "fmap (dat (ctx s') ! i) = fst (process_fmap t (fmap (dat (ctx s) ! i)) m)"
    unfolding stepped_def idx by blast
  from st have oth: "\<And>j. j \<noteq> i \<Longrightarrow> fmap (dat (ctx s') ! j) = fmap (dat (ctx s) ! j) \<or>
          (i < j \<and> j < n \<and> (\<exists>l a. fmap (dat (ctx s') ! j) =
                    insert_fmap (fmap (dat (ctx s) ! j)) \<lparr>bp = outp s, ls = l, ad = a\<rparr>))"
    unfolding stepped_def idx by blast
  have w': "window_ok (ctx s') n"
    using w b' e' l' by (simp add: window_ok_def)
  have p': "inp s' = basep (ctx s') + 4 * of_nat (Suc i)"
    by (simp add: i' p b')
  have al': "outp s' AND 3 = 0"
    unfolding o' using al by (rule aligned_advance)
  have ei: "fmap_empty (fmap (dat (ctx s') ! i))"
    unfolding cur using i5 by (intro compact_process cp) (simp add: A64_MAX_INSTRUCTIONS_def)
  have cp': "compact (fmap (dat (ctx s') ! j))" if j: "j < A64_MAX_INSTRUCTIONS" for j
  proof (cases "j = i")
    case True
    with ei show ?thesis by (simp add: fmap_empty_compact)
  next
    case False
    from oth [OF False] cp [OF j] show ?thesis
      by (auto simp add: compact_insert)
  qed
  have em': "fmap_empty (fmap (dat (ctx s') ! j))"
    if j: "j < A64_MAX_INSTRUCTIONS" and c: "j < Suc i \<or> n \<le> j" for j
  proof (cases "j = i")
    case True
    with ei show ?thesis by simp
  next
    case False
    with c have c': "j < i \<or> n \<le> j" by arith
    with oth [OF False] have "fmap (dat (ctx s') ! j) = fmap (dat (ctx s) ! j)"
      by auto
    with em [OF j c'] show ?thesis by simp
  qed
  have "reloc_inv n (Suc i) s'"
    unfolding reloc_inv_def using w' p' al' cp' em' lt by simp
  with f show ?thesis by blast
qed




lemma get_ref_ins_index_reset [simp]:
  "get_ref_ins_index (reset_current_ins c idx out) a = get_ref_ins_index c a"
  by (simp add: get_ref_ins_index_def)




section \<open>What the relocator leaves untouched\<close>

lemma pending_process: "pending (fst (process_fmap t fs m)) \<subseteq> pending fs"
  by (induction fs arbitrary: m) (auto simp add: Let_def pending_def)

lemma pending_insert: "pending (insert_fmap fs e) \<subseteq> insert (bp e) (pending fs)"
  by (induction fs) (auto simp add: pending_def)

lemma kept_put64:
  assumes "outp S = b + 4 * of_nat d" and "d + j + 1 < hi" and "kept_but P b hi m (mem S)"
  shows "kept_but P b hi m (mem (put64 j v S))"
proof -
  have e: "outp S + 4 * of_nat j = b + 4 * of_nat (d + j)"
    "b + 4 * of_nat (d + j) + 4 = b + 4 * of_nat (d + j + 1)"
    by (simp_all add: assms(1) algebra_simps)
  have a1: "kept_but P b hi m ((mem S)(b + 4 * of_nat (d + j) := ucast v))"
    by (rule kept_upd) (use assms(2,3) in simp_all)
  have "kept_but P b hi m ((mem S)(b + 4 * of_nat (d + j) := ucast v,
                 b + 4 * of_nat (d + j + 1) := ucast (drop_bit 32 v)))"
    by (rule kept_upd [OF _ a1]) (use assms(2) in simp)
  then show ?thesis
    unfolding put64_sel store64_def e .
qed

lemma tail_jump_kept:
  assumes o: "outp s = b + 4 * of_nat d" and h: "d + 5 \<le> hi" and k: "kept_but P b hi m (mem s)"
  shows "kept_but P b hi m (mem (tail_jump s))"
proof -
  let ?s1 = "advance 1 (put 0 A64_NOP s)"
  have o1: "outp ?s1 = b + 4 * of_nat (d + 1)"
    by (simp add: o algebra_simps)
  have n: "kept_but P b hi m (mem (put 0 w s))" for w
    by (rule kept_put [OF o]) (use h k in simp_all)
  then have k1: "kept_but P b hi m (mem ?s1)"
    by (simp del: put_sel)
  have far: "kept_but P b hi m (mem (put64 2 v (put 1 w1 (put 0 w0 S))))"
    if "outp S = b + 4 * of_nat e" "e + 4 \<le> hi" "kept_but P b hi m (mem S)" for S e v w1 w0
  proof -
    have a0: "kept_but P b hi m (mem (put 0 w0 S))"
      by (rule kept_put [where d = e]) (use that in simp_all)
    have a1: "kept_but P b hi m (mem (put 1 w1 (put 0 w0 S)))"
      by (rule kept_put [where d = e, OF _ _ a0]) (use that in simp_all)
    show ?thesis
      by (rule kept_put64 [where d = e, OF _ _ a1]) (use that in simp_all)
  qed
  have f0: "kept_but P b hi m (mem (put64 2 v (put 1 w1 (put 0 w0 s))))" for v w1 w0
    by (rule far [where e = d]) (use o h k in simp_all)
  have f1: "kept_but P b hi m (mem (put64 2 v (put 1 w1 (put 0 w0 ?s1))))" for v w1 w0
    by (rule far [where e = "d + 1", OF o1 _ k1]) (use h in simp)
  show ?thesis
    unfolding tail_jump_def Let_def using f0 f1 n by (simp del: put_sel put64_sel)
qed

lemma init_frame_inv:
  "frame_inv out m 0 \<lparr>inp = i, outp = out, ctx = init_context i count, mem = m\<rparr>"
  by (simp add: frame_inv_def init_context_def pending_def A64_MAX_INSTRUCTIONS_def)

lemma frame_inv_step:
  assumes v: "reloc_inv n i s" and f: "frame_inv out0 m0 i s" and lt: "i < n"
  shows "\<exists>s'. fix_one s = Some s' \<and> reloc_inv n (Suc i) s' \<and> frame_inv out0 m0 (Suc i) s'"
proof -
  from v have w: "window_ok (ctx s) n" and p: "inp s = basep (ctx s) + 4 * of_nat i"
    and al: "outp s AND 3 = 0"
    unfolding reloc_inv_def by blast+
  from w have n5: "n \<le> 5"
    by (simp add: window_ok_def A64_MAX_INSTRUCTIONS_def)
  with lt have i5: "i < 5" by simp
  have idx: "unat (get_ref_ins_index (ctx s) (inp s)) = i"
    unfolding get_ref_ins_index_def p using i5 by (rule index_of_position)
  with lt have il: "unat (get_ref_ins_index (ctx s) (inp s)) < n" by simp
  from fix_one_ok [OF w il al] obtain s' where s': "fix_one s = Some s'" and st: "stepped n 0 9 s s'"
    by blast
  from reloc_inv_step [OF v lt] s' have v': "reloc_inv n (Suc i) s'"
    by auto
  from f obtain K where K: "K \<le> 9 * i" "outp s = out0 + 4 * of_nat K"
    and km: "kept_but {} out0 (9 * i) m0 (mem s)"
    and pe: "\<And>j a. j < A64_MAX_INSTRUCTIONS \<Longrightarrow> a \<in> pending (fmap (dat (ctx s) ! j)) \<Longrightarrow>
               \<exists>q<9 * i. a = out0 + 4 * of_nat q"
    unfolding frame_inv_def by blast
  from st obtain k where k: "k \<le> 9" "outp s' = outp s + 4 * of_nat k"
    unfolding stepped_def by blast
  from st have ks: "kept_but (pending (fmap (dat (ctx s) ! i))) (outp s) 9 (mem s) (mem s')"
    unfolding stepped_def idx by blast
  from st obtain t m where cur: "fmap (dat (ctx s') ! i) = fst (process_fmap t (fmap (dat (ctx s) ! i)) m)"
    unfolding stepped_def idx by blast
  from st have oth: "\<And>j. j \<noteq> i \<Longrightarrow> fmap (dat (ctx s') ! j) = fmap (dat (ctx s) ! j) \<or>
          (\<exists>l a. fmap (dat (ctx s') ! j) =
                    insert_fmap (fmap (dat (ctx s) ! j)) \<lparr>bp = outp s, ls = l, ad = a\<rparr>)"
    unfolding stepped_def idx by blast
  have c1: "\<exists>K'\<le>9 * Suc i. outp s' = out0 + 4 * of_nat K'"
  proof (intro exI conjI)
    show "K + k \<le> 9 * Suc i" using K(1) k(1) by simp
    show "outp s' = out0 + 4 * of_nat (K + k)" by (simp add: k(2) K(2) algebra_simps)
  qed
  have c2: "kept_but {} out0 (9 * Suc i) m0 (mem s')"
    unfolding kept_but_def
  proof (intro allI impI)
    fix a assume o: "\<forall>j<9 * Suc i. a \<noteq> out0 + 4 * of_nat j"
    have "a \<notin> pending (fmap (dat (ctx s) ! i))"
    proof
      assume "a \<in> pending (fmap (dat (ctx s) ! i))"
      then obtain q where "q < 9 * i" "a = out0 + 4 * of_nat q"
        using pe [of i a] i5 by (auto simp add: A64_MAX_INSTRUCTIONS_def)
      then show False using o by auto
    qed
    moreover have "\<forall>j<9. a \<noteq> outp s + 4 * of_nat j"
    proof (intro allI impI)
      fix j :: nat assume "j < 9"
      then have "K + j < 9 * Suc i" using K(1) by simp
      then have "a \<noteq> out0 + 4 * of_nat (K + j)" using o by blast
      then show "a \<noteq> outp s + 4 * of_nat j" by (simp add: K(2) algebra_simps)
    qed
    ultimately have "mem s' a = mem s a"
      using ks unfolding kept_but_def by blast
    moreover have "mem s a = m0 a"
      using km o unfolding kept_but_def by auto
    ultimately show "mem s' a = m0 a" by simp
  qed
  have c3: "\<exists>q<9 * Suc i. a = out0 + 4 * of_nat q"
    if j: "j < A64_MAX_INSTRUCTIONS" and a: "a \<in> pending (fmap (dat (ctx s') ! j))" for j a
  proof -
    have "a \<in> pending (fmap (dat (ctx s) ! j)) \<or> a = outp s"
    proof (cases "j = i")
      case True
      with a cur pending_process [of t "fmap (dat (ctx s) ! i)" m] show ?thesis by auto
    next
      case False
      from oth [OF False] a pending_insert [of "fmap (dat (ctx s) ! j)"] show ?thesis
        by fastforce
    qed
    then show ?thesis
    proof
      assume "a \<in> pending (fmap (dat (ctx s) ! j))"
      then obtain q where "q < 9 * i" "a = out0 + 4 * of_nat q"
        using pe [OF j] by blast
      then show ?thesis by (intro exI [of _ q]) simp
    next
      assume "a = outp s"
      then show ?thesis using K by (intro exI [of _ K]) simp
    qed
  qed
  have "frame_inv out0 m0 (Suc i) s'"
    unfolding frame_inv_def using c1 c2 c3 by blast
  with s' v' show ?thesis by blast
qed

lemma frame_inv_loop:
  "reloc_inv n i s \<Longrightarrow> frame_inv out0 m0 i s \<Longrightarrow> i + k = n \<Longrightarrow>
   \<exists>s'. fix_loop k s = Some s' \<and> reloc_inv n n s' \<and> frame_inv out0 m0 n s'"
proof (induction k arbitrary: i s)
  case 0
  then show ?case by simp
next
  case (Suc k)
  then have "i < n" by simp
  from frame_inv_step [OF Suc.prems(1,2) this] obtain s1 where
    f: "fix_one s = Some s1" and v: "reloc_inv n (Suc i) s1" "frame_inv out0 m0 (Suc i) s1"
    by blast
  from Suc.prems(3) have "Suc i + k = n" by simp
  from Suc.IH [OF v this] f show ?case by simp
qed

lemma fix_instructions_frame:
  assumes c: "0 \<le> sint count" "sint count \<le> 5" and i: "i AND 3 = 0" and out: "out AND 3 = 0"
  shows "\<exists>r. fix_instructions m i count out = Some r \<and>
           kept_but {} out (9 * nat (sint count) + 5) m (mem r)"
proof -
  let ?n = "nat (sint count)"
  from frame_inv_loop [OF init_context_inv [OF c i out, of m] init_frame_inv, of ?n] obtain s' where
    f: "fix_loop ?n \<lparr>inp = i, outp = out, ctx = init_context i count, mem = m\<rparr> = Some s'"
    and v: "frame_inv out m ?n s'"
    by auto
  from v obtain K where K: "K \<le> 9 * ?n" "outp s' = out + 4 * of_nat K"
    and km: "kept_but {} out (9 * ?n) m (mem s')"
    unfolding frame_inv_def by blast
  from km have "kept_but {} out (9 * ?n + 5) m (mem s')"
    by (rule kept_mono) simp
  then have "kept_but {} out (9 * ?n + 5) m (mem (tail_jump s'))"
    using K by (intro tail_jump_kept [where d = K]) simp_all
  then show ?thesis
    by (simp add: fix_instructions_def f)
qed


section \<open>The installer\<close>

lemma bind_mem_null:
  "map_option mem x \<bind> (\<lambda>m1. Some (0 :: 64 word, m1)) = map_option (\<lambda>s. (0, mem s)) x"
  by (cases x) simp_all

text \<open>
  C10. Called with a null trampoline buffer while the page-protection change succeeds,
  \<open>A64HookFunctionV\<close> returns null and all the same has written the diverting prologue
  at the target: the one-word \<open>B\<close> of the short patch, or \<open>[NOP,] LDR X17, #8; BR X17\<close>
  and the 8-byte address of the replacement of the long patch.
\<close>

theorem null_buffer_hook_installed:
  assumes "\<forall>n. make_rwx symbol n = 0"
  shows "\<exists>m'. A64HookFunctionV make_rwx m symbol replace 0 rwx_size = Some (0, m') \<and>
     (if hook_count symbol replace = 1
      then m' = m(symbol := 0x14000000 OR ucast (signed_drop_bit 2 (replace - symbol) AND 0x03ffffff))
      else if hook_count symbol replace = 5
      then map m' [symbol, symbol + 4, symbol + 8, symbol + 12, symbol + 16] =
             [A64_NOP, 0x58000051, 0xd61f0220, ucast replace, ucast (drop_bit 32 replace)]
      else map m' [symbol, symbol + 4, symbol + 8, symbol + 12] =
             [0x58000051, 0xd61f0220, ucast replace, ucast (drop_bit 32 replace)])"
  using assms by (simp add: A64HookFunctionV_def hook_count_def Let_def store64_def)

theorem null_buffer_hook_installed_witness:
  "(\<forall>n. (\<lambda>_ _. 0 :: int) (0x1000 :: 64 word) (n :: 64 word) = 0) \<and>
   (\<exists>m'. A64HookFunctionV (\<lambda>_ _. 0) add_mem 0x1000 0x1100 0 0 = Some (0, m') \<and>
         m' 0x1000 = 0x14000040)"
proof -
  have a: "\<forall>n. (\<lambda>_ _. 0 :: int) (0x1000 :: 64 word) (n :: 64 word) = 0"
    by simp
  have c: "hook_count 0x1000 0x1100 = 1"
    by code_simp
  from null_buffer_hook_installed [of "\<lambda>_ _. 0" "0x1000" add_mem "0x1100" 0, OF a] c a
  show ?thesis
    by auto
qed

text \<open>The result of the installer when the page-protection change fails.\<close>

lemma mprotect_failure_result:
  assumes "\<forall>n. make_rwx symbol n \<noteq> 0"
  shows "A64HookFunctionV make_rwx m symbol replace rwx rwx_size =
     (if rwx = 0 \<or> rwx_size < ucast (hook_count symbol replace * 10) then Some (0, m)
      else map_option (\<lambda>s. (0, mem s)) (fix_instructions m symbol (hook_count symbol replace) rwx))"
  using assms by (auto simp add: A64HookFunctionV_def hook_count_def Let_def bind_mem_null)

text \<open>
  C3, as the code has it. For a function at a 4-aligned address and a 4-aligned buffer:
  when the page-protection change fails, \<open>A64HookFunctionV\<close> returns null. The memory is
  the initial one when the buffer is null or rejected by the size test; otherwise the
  relocator has run before the protection change and the memory is the one
  \<open>__fix_instructions\<close> left. In both cases every word outside the \<open>9 * N + 5\<close> words at
  the buffer (\<open>N\<close> the number of displaced instructions) is as it was; so the prologue has
  not been written: the first \<open>N\<close> words of the hooked function are unchanged, when they
  are not among those words of the buffer.
\<close>

theorem mprotect_failure_function_kept:
  assumes fail: "\<forall>n. make_rwx symbol n \<noteq> 0"
    and al: "symbol AND 3 = 0" "rwx AND 3 = 0"
  shows "\<exists>m'. A64HookFunctionV make_rwx m symbol replace rwx rwx_size = Some (0, m') \<and>
     (if rwx = 0 \<or> rwx_size < ucast (hook_count symbol replace * 10) then m' = m
      else \<exists>r. fix_instructions m symbol (hook_count symbol replace) rwx = Some r \<and> m' = mem r) \<and>
     (\<forall>a. (\<forall>j<9 * unat (hook_count symbol replace) + 5. a \<noteq> rwx + 4 * of_nat j) \<longrightarrow> m' a = m a) \<and>
     ((\<forall>i<unat (hook_count symbol replace). \<forall>j<9 * unat (hook_count symbol replace) + 5.
          symbol + 4 * of_nat i \<noteq> rwx + 4 * of_nat j) \<longrightarrow>
      (\<forall>i<unat (hook_count symbol replace). m' (symbol + 4 * of_nat i) = m (symbol + 4 * of_nat i)))"
proof -
  define N where "N = hook_count symbol replace"
  have "N = 1 \<or> N = 4 \<or> N = 5"
    by (simp add: N_def hook_count_def)
  then have s: "0 \<le> sint N" "sint N \<le> 5" "nat (sint N) = unat N"
    by auto
  have r: "A64HookFunctionV make_rwx m symbol replace rwx rwx_size =
     (if rwx = 0 \<or> rwx_size < ucast (N * 10) then Some (0, m)
      else map_option (\<lambda>s. (0, mem s)) (fix_instructions m symbol N rwx))"
    unfolding N_def using fail by (rule mprotect_failure_result)
  show ?thesis
  proof (cases "rwx = 0 \<or> rwx_size < ucast (N * 10)")
    case True
    then have "A64HookFunctionV make_rwx m symbol replace rwx rwx_size = Some (0, m)"
      using r by simp
    then show ?thesis
      using True unfolding N_def by simp
  next
    case False
    from fix_instructions_frame [OF s(1,2) al, of m] obtain rr where
      rr: "fix_instructions m symbol N rwx = Some rr"
      and k: "kept_but {} rwx (9 * nat (sint N) + 5) m (mem rr)"
      by blast
    have e: "A64HookFunctionV make_rwx m symbol replace rwx rwx_size = Some (0, mem rr)"
      using r False rr by simp
    have fr: "mem rr a = m a" if "\<forall>j<9 * unat N + 5. a \<noteq> rwx + 4 * of_nat j" for a
      using k that unfolding kept_but_def s(3) by simp
    have fn: "\<forall>i<unat N. mem rr (symbol + 4 * of_nat i) = m (symbol + 4 * of_nat i)"
      if "\<forall>i<unat N. \<forall>j<9 * unat N + 5. symbol + 4 * of_nat i \<noteq> rwx + 4 * of_nat j"
      using that fr by blast
    show ?thesis
      using e False rr fr fn unfolding N_def by simp
  qed
qed

theorem mprotect_failure_function_kept_witness:
  "(\<forall>n. (\<lambda>_ _. - 1 :: int) (0x1000 :: 64 word) (n :: 64 word) \<noteq> 0) \<and>
   (0x1000 :: 64 word) AND 3 = 0 \<and> (0x2000 :: 64 word) AND 3 = 0 \<and>
   \<not> ((0x2000 :: 64 word) = 0 \<or> (40 :: 64 word) < ucast (hook_count 0x1000 0x1100 * 10)) \<and>
   \<not> (\<exists>i j. i < unat (hook_count 0x1000 0x1100) \<and> j < 9 * unat (hook_count 0x1000 0x1100) + 5 \<and>
       (0x1000 :: 64 word) + 4 * of_nat i = 0x2000 + 4 * of_nat j) \<and>
   (\<exists>m' r. A64HookFunctionV (\<lambda>_ _. - 1) add_mem 0x1000 0x1100 0x2000 40 = Some (0, m') \<and>
      fix_instructions add_mem 0x1000 (hook_count 0x1000 0x1100) 0x2000 = Some r \<and> m' = mem r \<and>
      m' 0x1000 = 0x91000400)"
proof -
  have h1: "\<forall>n. (\<lambda>_ _. - 1 :: int) (0x1000 :: 64 word) (n :: 64 word) \<noteq> 0"
    by simp
  have h2: "(0x1000 :: 64 word) AND 3 = 0" "(0x2000 :: 64 word) AND 3 = 0"
    by simp_all
  have c: "hook_count 0x1000 0x1100 = 1"
    by code_simp
  have h3: "\<not> ((0x2000 :: 64 word) = 0 \<or> (40 :: 64 word) < ucast (hook_count 0x1000 0x1100 * 10))"
    unfolding c by simp
  have "\<forall>j\<in>set [0..<14]. (0x1000 :: 64 word) \<noteq> 0x2000 + 4 * of_nat j"
    by code_simp
  then have d: "\<forall>j<14. (0x1000 :: 64 word) \<noteq> 0x2000 + 4 * of_nat j"
    by simp
  have h4: "\<forall>i<unat (hook_count 0x1000 0x1100). \<forall>j<9 * unat (hook_count 0x1000 0x1100) + 5.
       (0x1000 :: 64 word) + 4 * of_nat i \<noteq> 0x2000 + 4 * of_nat j"
    unfolding c using d by simp
  have v: "add_mem 0x1000 = 0x91000400"
    by (simp add: add_mem_def)
  from mprotect_failure_function_kept [where make_rwx = "\<lambda>_ _. - 1" and symbol = "0x1000"
      and rwx = "0x2000" and m = add_mem and replace = "0x1100" and rwx_size = 40, OF h1 h2]
  obtain m' where
    a: "A64HookFunctionV (\<lambda>_ _. - 1) add_mem 0x1000 0x1100 0x2000 40 = Some (0, m')"
    and b: "\<exists>r. fix_instructions add_mem 0x1000 (hook_count 0x1000 0x1100) 0x2000 = Some r \<and> m' = mem r"
    and f: "(\<forall>i<unat (hook_count 0x1000 0x1100). \<forall>j<9 * unat (hook_count 0x1000 0x1100) + 5.
          (0x1000 :: 64 word) + 4 * of_nat i \<noteq> 0x2000 + 4 * of_nat j) \<longrightarrow>
      (\<forall>i<unat (hook_count 0x1000 0x1100). m' (0x1000 + 4 * of_nat i) = add_mem (0x1000 + 4 * of_nat i))"
    using h3 by auto
  from f h4 have "\<forall>i<unat (hook_count 0x1000 0x1100). m' (0x1000 + 4 * of_nat i) = add_mem (0x1000 + 4 * of_nat i)"
    by blast
  then have "m' 0x1000 = 0x91000400"
    unfolding c using v by simp
  moreover from h4 have "\<not> (\<exists>i j. i < unat (hook_count 0x1000 0x1100) \<and>
       j < 9 * unat (hook_count 0x1000 0x1100) + 5 \<and>
       (0x1000 :: 64 word) + 4 * of_nat i = 0x2000 + 4 * of_nat j)"
    by blast
  ultimately show ?thesis
    using a b h1 h2 h3 by blast
qed

text \<open>
  The claim as the specification states it fails: with the protection change failing and a
  40-byte buffer at \<open>0x2000\<close>, null is returned, yet the first word of the buffer now
  holds the relocated \<open>ADD\<close>.
\<close>

theorem mprotect_failure_buffer_written:
  "map_option (\<lambda>(r, m'). (r, add_mem 0x2000, m' 0x2000))
     (A64HookFunctionV (\<lambda>_ _. - 1) add_mem 0x1000 0x1100 0x2000 40) = Some (0, 0, 0x91000400)"
  by code_simp

text \<open>
  C2 at the failing input: a 10-byte buffer, a quarter of the \<open>1 * 10 * 4\<close> bytes the
  header asks for, passes the test \<open>rwx_size < 1u * 10u\<close>; the hook is installed, the
  buffer pointer is returned and the relocator has written the words at \<open>0x2000\<close> and
  \<open>0x2004\<close>.
\<close>

theorem size_check_accepts_ten_bytes:
  "map_option (\<lambda>(r, m'). (r, map m' [0x1000, 0x2000, 0x2004]))
     (A64HookFunctionV (\<lambda>_ _. 0) add_mem 0x1000 0x1100 0x2000 10)
   = Some (0x2000, [0x14000040, 0x91000400, 0x17fffc00])"
  by code_simp

section \<open>The driver\<close>

text \<open>
  C1 at the failing input: one displaced instruction, \<open>LDR Q0, #0x100\<close> at
  \<open>0x10000000\<close>, relocated to \<open>0x80000000\<close>. The relocator writes two NOPs, the load,
  the branch over the literal, the four words of the literal and the four-word jump back:
  the cursor ends 48 bytes after the start of the buffer, beyond \<open>1 * 10 * 4 = 40\<close>.
\<close>

theorem fix_instructions_writes_48_bytes:
  "map_option (\<lambda>s. (outp s - 0x80000000, map (mem s) [0x80000028, 0x8000002c]))
     (fix_instructions ldrq_mem 0x10000000 1 0x80000000) = Some (48, [0x10000004, 0])"
  by code_simp

section \<open>The branch rewriter\<close>

text \<open>
  C5, as the code has it. For a B or BL whose target lies outside the window, if the new
  word offset \<open>out_off = (tgt - out) >> 2\<close> satisfies \<open>|out_off| < 2^25 - 1\<close> (the code's
  test is \<open>llabs(new_pc_offset) >= (rmask >> 1)\<close>, and \<open>rmask >> 1\<close> is \<open>2^25 - 1\<close>), the
  rewriter writes the one word \<open>opcode | (out_off & 0x03FFFFFF)\<close> at the cursor and
  advances the cursor and the input by one word. No other word of memory changes, but for
  the fix-ups filed against this instruction, which are resolved as always.
\<close>

theorem branch_imm_in_range:
  fixes s :: reloc
  defines "i \<equiv> mem s (inp s)"
  defines "idx \<equiv> get_ref_ins_index (ctx s) (inp s)"
  defines "tgt \<equiv> branch_imm_target (inp s) i"
  defines "out_off \<equiv> signed_drop_bit 2 (tgt - outp s)"
  assumes opc: "i AND 0xfc000000 = op_b \<or> i AND 0xfc000000 = op_bl"
    and idx: "unat idx < length (dat (ctx s))"
    and outside: "\<not> is_in_fixing_range (ctx s) tgt"
    and near: "\<bar>sint out_off\<bar> < 2 ^ 25 - 1"
    and frame: "outp s \<notin> bp ` set (fmap (dat (ctx s) ! unat idx))"
  shows "\<exists>s'. fix_branch_imm s = Some (True, s') \<and> outp s' = outp s + 4 \<and> inp s' = inp s + 4 \<and>
           mem s' (outp s) = (i AND 0xfc000000) OR ucast (out_off AND 0x03ffffff) \<and>
           (\<forall>a. a \<noteq> outp s \<and> a \<notin> bp ` set (fmap (dat (ctx s) ! unat idx)) \<longrightarrow> mem s' a = mem s a)"
proof -
  have nf: "\<not> (33554431 :: 64 word) \<le>s
              llabs (signed_drop_bit 2 (branch_imm_target (inp s) (mem s (inp s)) - outp s))"
    using near unfolding out_off_def tgt_def i_def far_test_iff by simp
  show ?thesis
    using opc idx outside frame nf
    unfolding i_def idx_def tgt_def out_off_def
    by (auto simp add: fix_branch_imm_def Let_def get_and_set_Some process_fix_map_frame)
qed

theorem branch_imm_in_range_witness:
  "(mem b_near_state (inp b_near_state) AND 0xfc000000 = op_b \<or>
    mem b_near_state (inp b_near_state) AND 0xfc000000 = op_bl) \<and>
   unat (get_ref_ins_index (ctx b_near_state) (inp b_near_state)) < length (dat (ctx b_near_state)) \<and>
   \<not> is_in_fixing_range (ctx b_near_state)
       (branch_imm_target (inp b_near_state) (mem b_near_state (inp b_near_state))) \<and>
   \<bar>sint (signed_drop_bit 2
      (branch_imm_target (inp b_near_state) (mem b_near_state (inp b_near_state)) - outp b_near_state))\<bar>
     < 2 ^ 25 - 1 \<and>
   (\<exists>s'. fix_branch_imm b_near_state = Some (True, s') \<and> outp s' = outp b_near_state + 4)"
proof -
  have h1: "mem b_near_state (inp b_near_state) AND 0xfc000000 = op_b \<or>
            mem b_near_state (inp b_near_state) AND 0xfc000000 = op_bl"
    by code_simp
  have h2: "unat (get_ref_ins_index (ctx b_near_state) (inp b_near_state)) < length (dat (ctx b_near_state))"
    by code_simp
  have h3: "\<not> is_in_fixing_range (ctx b_near_state)
              (branch_imm_target (inp b_near_state) (mem b_near_state (inp b_near_state)))"
    by code_simp
  have h4: "\<bar>sint (signed_drop_bit 2
              (branch_imm_target (inp b_near_state) (mem b_near_state (inp b_near_state)) - outp b_near_state))\<bar>
            < 2 ^ 25 - 1"
    by code_simp
  have h5: "outp b_near_state \<notin> bp ` set (fmap (dat (ctx b_near_state) !
              unat (get_ref_ins_index (ctx b_near_state) (inp b_near_state))))"
    by code_simp
  from branch_imm_in_range [of b_near_state, OF h1 h2 h3 h4 h5] h1 h2 h3 h4
  show ?thesis by blast
qed

text \<open>
  The claim as the specification states it, with the bound \<open>2^25\<close>, fails at the offset
  \<open>-(2^25 - 1)\<close>: the B is outside the window and the offset would fit, yet the rewriter
  takes the literal form, a NOP first, and moves the cursor by five words.
\<close>

theorem branch_imm_edge_goes_far:
  "mem b_edge_state (inp b_edge_state) AND 0xfc000000 = op_b \<and>
   \<not> is_in_fixing_range (ctx b_edge_state) (branch_imm_target 0x1000 0x14000002) \<and>
   \<bar>sint (signed_drop_bit 2 (branch_imm_target 0x1000 0x14000002 - outp b_edge_state))\<bar> < 2 ^ 25 \<and>
   map_option (\<lambda>(h, s'). (h, outp s' - outp b_edge_state, mem s' (outp b_edge_state)))
     (fix_branch_imm b_edge_state) = Some (True, 20, A64_NOP)"
  by code_simp

text \<open>
  C6. For a BL whose target lies outside the window and whose new word offset
  \<open>out_off\<close> passes the code's test \<open>|out_off| >= 2^25 - 1\<close> (every offset that overflows
  the 26-bit immediate does), the rewriter emits \<open>LDR X17, #12; ADR X30, #16; BR X17\<close> and
  the 8-byte target, five words. It writes one NOP first, and records the address after
  the NOP as the output address of the instruction, exactly when \<open>out + 3\<close> words is not
  8-aligned; either way the literal at word 3 of the sequence is 8-aligned. The cursor
  \<open>out\<close> is 4-aligned, as every \<open>uint32_t *\<close> is.
\<close>

theorem branch_link_overflow:
  fixes s :: reloc
  defines "i \<equiv> mem s (inp s)"
  defines "idx \<equiv> get_ref_ins_index (ctx s) (inp s)"
  defines "tgt \<equiv> branch_imm_target (inp s) i"
  defines "out_off \<equiv> signed_drop_bit 2 (tgt - outp s)"
  defines "out1 \<equiv> (if (outp s + 4 * 3) AND 7 \<noteq> 0 then outp s + 4 else outp s)"
  assumes opc: "i AND 0xfc000000 = op_bl"
    and idx: "unat idx < length (dat (ctx s))"
    and outside: "\<not> is_in_fixing_range (ctx s) tgt"
    and far: "2 ^ 25 - 1 \<le> \<bar>sint out_off\<bar>"
    and aligned: "outp s AND 3 = 0"
    and frame: "\<forall>k<6. outp s + 4 * of_nat k \<notin> bp ` set (fmap (dat (ctx s) ! unat idx))"
  shows "\<exists>s'. fix_branch_imm s = Some (True, s') \<and>
           (out1 \<noteq> outp s \<longrightarrow> mem s' (outp s) = A64_NOP) \<and>
           map (mem s') [out1, out1 + 4, out1 + 8, out1 + 12, out1 + 16] =
             [0x58000071, 0x1000009e, 0xd61f0220, ucast tgt, ucast (drop_bit 32 tgt)] \<and>
           outp s' = out1 + 20 \<and> inp s' = inp s + 4 \<and>
           ins (dat (ctx s') ! unat idx) = out1 \<and> (out1 + 4 * 3) AND 7 = 0"
proof -
  define P where "P = bp ` set (fmap (dat (ctx s) ! unat idx))"
  define S where "S = far_bl idx tgt (s\<lparr>ctx := reset_current_ins (ctx s) idx (outp s)\<rparr>)"
  define S' where "S' = process_fix_map idx (S\<lparr>inp := inp S + 4\<rparr>)"
  have f: "(33554431 :: 64 word) \<le>s llabs (signed_drop_bit 2 (tgt - outp s))"
    using far unfolding out_off_def far_test_iff by simp
  have nb: "i AND 0xfc000000 \<noteq> op_b"
    using opc by (simp add: op_b_def op_bl_def)
  have run: "fix_branch_imm s = Some (True, S')"
    using opc idx outside f nb
    unfolding S'_def S_def i_def idx_def tgt_def
    by (simp add: fix_branch_imm_def Let_def get_and_set_Some)
  have fr: "outp s \<notin> P" "outp s + 4 \<notin> P" "outp s + 8 \<notin> P" "outp s + 12 \<notin> P"
    "outp s + 16 \<notin> P" "outp s + 20 \<notin> P"
    using frame [rule_format, of 0] frame [rule_format, of 1] frame [rule_format, of 2]
      frame [rule_format, of 3] frame [rule_format, of 4] frame [rule_format, of 5]
    unfolding P_def by simp_all
  have pend: "fmap (dat (ctx (S\<lparr>inp := inp S + 4\<rparr>)) ! unat idx) = fmap (dat (ctx s) ! unat idx)"
    by (simp add: S_def far_bl_sel)
  have keep: "mem S' a = mem S a" if "a \<notin> P" for a
    unfolding S'_def using process_fix_map_frame_at [OF pend] that by (simp add: P_def)
  have io: "inp S' = inp s + 4" "outp S' = outp S"
    by (simp_all add: S'_def S_def far_bl_sel)
  show ?thesis
  proof (cases "(outp s + 8) AND 7 = 0")
    case True
    then have o: "out1 = outp s + 4"
      using nop_align(1) [OF aligned] by (simp add: out1_def)
    have m: "map (mem S) [outp s, outp s + 4, outp s + 8, outp s + 12, outp s + 16, outp s + 20] =
       [A64_NOP, 0x58000071, 0x1000009e, 0xd61f0220, ucast tgt, ucast (drop_bit 32 tgt)]"
      unfolding S_def using True far_bl_mem_nop [of "s\<lparr>ctx := reset_current_ins (ctx s) idx (outp s)\<rparr>" idx tgt]
      by simp
    have c: "ins (dat (ctx S') ! unat idx) = outp s + 4"
      using True idx by (simp add: S'_def S_def far_bl_sel process_fix_map_ins reset_current_ins_ins)
    have e: "outp S' = outp s + 24"
      using True by (simp add: io S_def far_bl_sel)
    show ?thesis
      using run m c e io(1) fr nop_align(2) [OF aligned True]
      by (simp add: o keep add.commute)
  next
    case False
    then have o: "out1 = outp s"
      using nop_align(1) [OF aligned] by (simp add: out1_def)
    have m: "map (mem S) [outp s, outp s + 4, outp s + 8, outp s + 12, outp s + 16] =
       [0x58000071, 0x1000009e, 0xd61f0220, ucast tgt, ucast (drop_bit 32 tgt)]"
      unfolding S_def using False far_bl_mem_plain [of "s\<lparr>ctx := reset_current_ins (ctx s) idx (outp s)\<rparr>" idx tgt]
      by simp
    have c: "ins (dat (ctx S') ! unat idx) = outp s"
      using False idx by (simp add: S'_def S_def far_bl_sel process_fix_map_ins reset_current_ins_ins)
    have e: "outp S' = outp s + 20"
      using False by (simp add: io S_def far_bl_sel)
    show ?thesis
      using run m c e io(1) fr nop_align(3) [OF aligned False]
      by (simp add: o keep add.commute)
  qed
qed


theorem branch_link_overflow_witness:
  "mem bl_far_state (inp bl_far_state) AND 0xfc000000 = op_bl \<and>
   unat (get_ref_ins_index (ctx bl_far_state) (inp bl_far_state)) < length (dat (ctx bl_far_state)) \<and>
   \<not> is_in_fixing_range (ctx bl_far_state)
       (branch_imm_target (inp bl_far_state) (mem bl_far_state (inp bl_far_state))) \<and>
   2 ^ 25 - 1 \<le> \<bar>sint (signed_drop_bit 2
      (branch_imm_target (inp bl_far_state) (mem bl_far_state (inp bl_far_state)) - outp bl_far_state))\<bar> \<and>
   outp bl_far_state AND 3 = 0 \<and>
   (\<exists>s'. fix_branch_imm bl_far_state = Some (True, s') \<and>
      map (mem s') [0x80000000, 0x80000004, 0x80000008, 0x8000000c, 0x80000010, 0x80000014] =
        [A64_NOP, 0x58000071, 0x1000009e, 0xd61f0220, 0x10000004, 0] \<and>
      outp s' = 0x80000018)"
proof -
  have h1: "mem bl_far_state (inp bl_far_state) AND 0xfc000000 = op_bl"
    by code_simp
  have h2: "unat (get_ref_ins_index (ctx bl_far_state) (inp bl_far_state)) < length (dat (ctx bl_far_state))"
    by code_simp
  have h3: "\<not> is_in_fixing_range (ctx bl_far_state)
              (branch_imm_target (inp bl_far_state) (mem bl_far_state (inp bl_far_state)))"
    by code_simp
  have h4: "2 ^ 25 - 1 \<le> \<bar>sint (signed_drop_bit 2
      (branch_imm_target (inp bl_far_state) (mem bl_far_state (inp bl_far_state)) - outp bl_far_state))\<bar>"
    by code_simp
  have h5: "outp bl_far_state AND 3 = 0"
    by code_simp
  have z: "get_ref_ins_index (ctx bl_far_state) (inp bl_far_state) = 0"
    by code_simp
  have h6: "\<forall>k<6. outp bl_far_state + 4 * of_nat k \<notin>
              bp ` set (fmap (dat (ctx bl_far_state) !
                unat (get_ref_ins_index (ctx bl_far_state) (inp bl_far_state))))"
    unfolding z by (simp add: bl_far_state_def empty_fmap_frame all_less_6)
  have t: "branch_imm_target (inp bl_far_state) (mem bl_far_state (inp bl_far_state)) = 0x10000004"
    by code_simp
  have o: "outp bl_far_state = 0x80000000"
    by code_simp
  from branch_link_overflow [of bl_far_state, OF h1 h2 h3 h4 h5 h6] h1 h2 h3 h4 h5
  show ?thesis unfolding t unfolding o by auto
qed

section \<open>The conditional-branch rewriter\<close>

text \<open>
  C7, as the code has it. The literal form is taken only for a target outside the window
  (the code's test starts with \<open>!special_fix_type\<close>). For a B.cond, CBZ/CBNZ or TBZ/TBNZ
  whose target lies outside the window and whose new word offset passes the code's test
  \<open>|out_off| >= 2^18 - 1\<close> (\<open>2^13 - 1\<close> for TBZ/TBNZ; an offset that overflows the field
  does), the rewriter writes a NOP first exactly when \<open>out + 4\<close> words is not 8-aligned,
  then the six words: the original instruction with displacement 8, that is
  \<open>(((8 >> 2) << 5) & ~lmask) | (ins & lmask)\<close>, then \<open>B #20\<close>, \<open>LDR X17, #8\<close>, \<open>BR X17\<close>
  and the 8-byte target, which is 8-aligned.
\<close>

theorem cond_branch_overflow:
  fixes s :: reloc
  defines "i \<equiv> mem s (inp s)"
  defines "idx \<equiv> get_ref_ins_index (ctx s) (inp s)"
  defines "out1 \<equiv> (if (outp s + 4 * 4) AND 7 \<noteq> 0 then outp s + 4 else outp s)"
  assumes opc: "cond_lmask i = Some lmask"
    and idx: "unat idx < length (dat (ctx s))"
    and outside: "\<not> is_in_fixing_range (ctx s) (cond_target lmask (inp s) i)"
    and far: "(if lmask = 0xfff8001f then 2 ^ 13 - 1 else 2 ^ 18 - 1)
                \<le> \<bar>sint (signed_drop_bit 2 (cond_target lmask (inp s) i - outp s))\<bar>"
    and aligned: "outp s AND 3 = 0"
    and frame: "\<forall>k<7. outp s + 4 * of_nat k \<notin> bp ` set (fmap (dat (ctx s) ! unat idx))"
  shows "\<exists>s'. fix_cond_comp_test_branch s = Some (True, s') \<and>
           (out1 \<noteq> outp s \<longrightarrow> mem s' (outp s) = A64_NOP) \<and>
           map (mem s') [out1, out1 + 4, out1 + 8, out1 + 12, out1 + 16, out1 + 20] =
             [(push_bit 5 (drop_bit 2 8) AND NOT lmask) OR (i AND lmask), 0x14000005, 0x58000051,
              0xd61f0220, ucast (cond_target lmask (inp s) i),
              ucast (drop_bit 32 (cond_target lmask (inp s) i))] \<and>
           outp s' = out1 + 24 \<and> inp s' = inp s + 4 \<and>
           ins (dat (ctx s') ! unat idx) = out1 \<and> (out1 + 4 * 4) AND 7 = 0"
proof -
  define tgt where "tgt = cond_target lmask (inp s) i"
  define P where "P = bp ` set (fmap (dat (ctx s) ! unat idx))"
  define S where "S = far_cond lmask i idx tgt (s\<lparr>ctx := reset_current_ins (ctx s) idx (outp s)\<rparr>)"
  define S' where "S' = process_fix_map idx (S\<lparr>inp := inp S + 4\<rparr>)"
  have f: "(ucast (drop_bit (5 + 1) (NOT lmask)) :: 64 word) \<le>s llabs (signed_drop_bit 2 (tgt - outp s))"
    using far cond_lmask_cases [OF opc] unfolding tgt_def
    by (auto simp add: far_test_iff)
  have run: "fix_cond_comp_test_branch s = Some (True, S')"
    using opc idx outside f
    unfolding S'_def S_def i_def idx_def tgt_def
    by (simp add: fix_cond_comp_test_branch_def Let_def get_and_set_Some)
  have fr: "outp s \<notin> P" "outp s + 4 \<notin> P" "outp s + 8 \<notin> P" "outp s + 12 \<notin> P"
    "outp s + 16 \<notin> P" "outp s + 20 \<notin> P" "outp s + 24 \<notin> P"
    using frame [rule_format, of 0] frame [rule_format, of 1] frame [rule_format, of 2]
      frame [rule_format, of 3] frame [rule_format, of 4] frame [rule_format, of 5]
      frame [rule_format, of 6]
    unfolding P_def by simp_all
  have pend: "fmap (dat (ctx (S\<lparr>inp := inp S + 4\<rparr>)) ! unat idx) = fmap (dat (ctx s) ! unat idx)"
    by (simp add: S_def far_cond_sel)
  have keep: "mem S' a = mem S a" if "a \<notin> P" for a
    unfolding S'_def using process_fix_map_frame_at [OF pend] that by (simp add: P_def)
  have io: "inp S' = inp s + 4" "outp S' = outp S"
    by (simp_all add: S'_def S_def far_cond_sel)
  show ?thesis
  proof (cases "(outp s + 16) AND 7 \<noteq> 0")
    case True
    then have o: "out1 = outp s + 4"
      by (simp add: out1_def)
    have m: "map (mem S) [outp s, outp s + 4, outp s + 8, outp s + 12, outp s + 16, outp s + 20, outp s + 24] =
       [A64_NOP, (push_bit 5 (drop_bit 2 8) AND NOT lmask) OR (i AND lmask), 0x14000005, 0x58000051,
        0xd61f0220, ucast tgt, ucast (drop_bit 32 tgt)]"
      unfolding S_def
      using True far_cond_mem_nop [of "s\<lparr>ctx := reset_current_ins (ctx s) idx (outp s)\<rparr>" lmask i idx tgt]
      by simp
    have c: "ins (dat (ctx S') ! unat idx) = outp s + 4"
      using True idx by (simp add: S'_def S_def far_cond_sel process_fix_map_ins reset_current_ins_ins)
    have e: "outp S' = outp s + 28"
      using True by (simp add: io S_def far_cond_sel)
    show ?thesis
      using run m c e io(1) fr nop_align(4) [OF aligned True]
      by (simp add: o keep add.commute tgt_def)
  next
    case False
    then have o: "out1 = outp s"
      by (simp add: out1_def)
    have m: "map (mem S) [outp s, outp s + 4, outp s + 8, outp s + 12, outp s + 16, outp s + 20] =
       [(push_bit 5 (drop_bit 2 8) AND NOT lmask) OR (i AND lmask), 0x14000005, 0x58000051,
        0xd61f0220, ucast tgt, ucast (drop_bit 32 tgt)]"
      unfolding S_def
      using False far_cond_mem_plain [of "s\<lparr>ctx := reset_current_ins (ctx s) idx (outp s)\<rparr>" lmask i idx tgt]
      by simp
    have c: "ins (dat (ctx S') ! unat idx) = outp s"
      using False idx by (simp add: S'_def S_def far_cond_sel process_fix_map_ins reset_current_ins_ins)
    have e: "outp S' = outp s + 24"
      using False by (simp add: io S_def far_cond_sel)
    show ?thesis
      using run m c e io(1) fr False
      by (simp add: o keep add.commute tgt_def)
  qed
qed


theorem cond_branch_overflow_witness:
  "cond_lmask (mem cond_far_state (inp cond_far_state)) = Some 0xff00001f \<and>
   unat (get_ref_ins_index (ctx cond_far_state) (inp cond_far_state)) < length (dat (ctx cond_far_state)) \<and>
   \<not> is_in_fixing_range (ctx cond_far_state)
       (cond_target 0xff00001f (inp cond_far_state) (mem cond_far_state (inp cond_far_state))) \<and>
   (if (0xff00001f :: 32 word) = 0xfff8001f then 2 ^ 13 - 1 else 2 ^ 18 - 1)
     \<le> \<bar>sint (signed_drop_bit 2
          (cond_target 0xff00001f (inp cond_far_state) (mem cond_far_state (inp cond_far_state))
             - outp cond_far_state))\<bar> \<and>
   outp cond_far_state AND 3 = 0 \<and>
   (\<exists>s'. fix_cond_comp_test_branch cond_far_state = Some (True, s') \<and>
      map (mem s') [0x80000000, 0x80000004, 0x80000008, 0x8000000c, 0x80000010, 0x80000014] =
        [0x54000040, 0x14000005, 0x58000051, 0xd61f0220, 0x10000008, 0] \<and>
      outp s' = 0x80000018)"
proof -
  have h1: "cond_lmask (mem cond_far_state (inp cond_far_state)) = Some 0xff00001f"
    by code_simp
  have h2: "unat (get_ref_ins_index (ctx cond_far_state) (inp cond_far_state)) < length (dat (ctx cond_far_state))"
    by code_simp
  have h3: "\<not> is_in_fixing_range (ctx cond_far_state)
       (cond_target 0xff00001f (inp cond_far_state) (mem cond_far_state (inp cond_far_state)))"
    by code_simp
  have h4: "(if (0xff00001f :: 32 word) = 0xfff8001f then 2 ^ 13 - 1 else 2 ^ 18 - 1)
     \<le> \<bar>sint (signed_drop_bit 2
          (cond_target 0xff00001f (inp cond_far_state) (mem cond_far_state (inp cond_far_state))
             - outp cond_far_state))\<bar>"
    by code_simp
  have h5: "outp cond_far_state AND 3 = 0"
    by code_simp
  have z: "get_ref_ins_index (ctx cond_far_state) (inp cond_far_state) = 0"
    by code_simp
  have h6: "\<forall>k<7. outp cond_far_state + 4 * of_nat k \<notin>
              bp ` set (fmap (dat (ctx cond_far_state) !
                unat (get_ref_ins_index (ctx cond_far_state) (inp cond_far_state))))"
    unfolding z by (simp add: cond_far_state_def empty_fmap_frame all_less_7)
  have t: "cond_target 0xff00001f (inp cond_far_state) (mem cond_far_state (inp cond_far_state)) = 0x10000008"
    by code_simp
  have o: "outp cond_far_state = 0x80000000" "mem cond_far_state (inp cond_far_state) = 0x54000040"
    by code_simp+
  from cond_branch_overflow [of cond_far_state "0xff00001f", OF h1 h2 h3 h4 h5 h6] h1 h2 h3 h4 h5
  show ?thesis unfolding t unfolding o by auto
qed

text \<open>
  The claim as the specification states it, for every conditional branch whose new
  displacement overflows, fails for a target inside the window: \<open>B.EQ #0\<close> relocated from
  \<open>0x10000000\<close> to \<open>0x80000000\<close> has a new word offset far outside 19 bits, and the
  rewriter writes the one word \<open>B.EQ #0\<close>, resolved against the recorded output address.
\<close>

theorem cond_branch_in_window_one_word:
  "cond_lmask (mem cond_self_state (inp cond_self_state)) = Some 0xff00001f \<and>
   sint (signed_drop_bit 2
     (cond_target 0xff00001f (inp cond_self_state) (mem cond_self_state (inp cond_self_state))
        - outp cond_self_state)) < - (2 ^ 18) \<and>
   map_option (\<lambda>(h, s'). (h, outp s' - outp cond_self_state, mem s' (outp cond_self_state)))
     (fix_cond_comp_test_branch cond_self_state) = Some (True, 4, 0x54000000)"
  by code_simp

section \<open>The address rewriter\<close>

text \<open>
  The shape of the output for an ADRP, with \<open>tgt\<close> the value \<open>adrp_target\<close> that the code
  computes: if \<open>tgt\<close> is outside the window the rewriter emits \<open>LDR Xd, #8; B #12\<close> and the
  8 bytes of \<open>tgt\<close>, never an ADRP, after one NOP exactly when \<open>out + 2\<close> words is not
  8-aligned; if \<open>tgt\<close> is inside the window it copies the ADRP word as it is, one word.
  This says nothing on whether \<open>tgt\<close> is the page base of the instruction; for a negative
  immediate it is not, as shown below.
\<close>

theorem adrp_rewrite:
  fixes s :: reloc
  defines "i \<equiv> mem s (inp s)"
  defines "idx \<equiv> get_ref_ins_index (ctx s) (inp s)"
  defines "tgt \<equiv> adrp_target (inp s) i"
  defines "out1 \<equiv> (if (outp s + 4 * 2) AND 7 \<noteq> 0 then outp s + 4 else outp s)"
  assumes opc: "i AND 0x9f000000 = op_adrp"
    and idx: "unat idx < length (dat (ctx s))"
    and aligned: "outp s AND 3 = 0"
    and frame: "\<forall>k<5. outp s + 4 * of_nat k \<notin> bp ` set (fmap (dat (ctx s) ! unat idx))"
  shows "\<exists>s'. fix_pcreladdr s = Some (True, s') \<and> inp s' = inp s + 4 \<and>
           (if is_in_fixing_range (ctx s) tgt
            then mem s' (outp s) = i \<and> outp s' = outp s + 4
            else (out1 \<noteq> outp s \<longrightarrow> mem s' (outp s) = A64_NOP) \<and>
                 map (mem s') [out1, out1 + 4, out1 + 8, out1 + 12] =
                   [0x58000040 OR (i AND 0x1f), 0x14000003, ucast tgt, ucast (drop_bit 32 tgt)] \<and>
                 outp s' = out1 + 16 \<and> ins (dat (ctx s') ! unat idx) = out1 \<and>
                 (out1 + 4 * 2) AND 7 = 0)"
proof -
  define P where "P = bp ` set (fmap (dat (ctx s) ! unat idx))"
  define s0 where "s0 = s\<lparr>ctx := reset_current_ins (ctx s) idx (outp s)\<rparr>"
  define S where "S = (if is_in_fixing_range (ctx s) tgt then advance 1 (put 0 i s0)
                       else ldr_literal i idx tgt s0)"
  define S' where "S' = (process_fix_map idx S)\<lparr>inp := inp s + 4\<rparr>"
  have na: "i AND 0x9f000000 \<noteq> op_adr"
    using opc by (simp add: op_adr_def op_adrp_def)
  have run: "fix_pcreladdr s = Some (True, S')"
    using opc idx na
    unfolding S'_def S_def s0_def i_def idx_def tgt_def
    by (simp add: fix_pcreladdr_def Let_def get_and_set_Some ldr_literal_sel)
  have fr: "outp s \<notin> P" "outp s + 4 \<notin> P" "outp s + 8 \<notin> P" "outp s + 12 \<notin> P"
    "outp s + 16 \<notin> P"
    using frame [rule_format, of 0] frame [rule_format, of 1] frame [rule_format, of 2]
      frame [rule_format, of 3] frame [rule_format, of 4]
    unfolding P_def by simp_all
  have pend: "fmap (dat (ctx S) ! unat idx) = fmap (dat (ctx s) ! unat idx)"
    by (simp add: S_def s0_def ldr_literal_sel)
  have keep: "mem S' a = mem S a" if "a \<notin> P" for a
    unfolding S'_def using process_fix_map_frame_at [OF pend] that by (simp add: P_def)
  have io: "inp S' = inp s + 4" "outp S' = outp S"
    by (simp_all add: S'_def)
  show ?thesis
  proof (cases "is_in_fixing_range (ctx s) tgt")
    case True
    then show ?thesis
      using run fr io by (simp add: keep S_def s0_def)
  next
    case out: False
    show ?thesis
    proof (cases "(outp s + 8) AND 7 \<noteq> 0")
      case True
      then have o: "out1 = outp s + 4"
        by (simp add: out1_def)
      have m: "map (mem S) [outp s, outp s + 4, outp s + 8, outp s + 12, outp s + 16] =
         [A64_NOP, 0x58000040 OR (i AND 0x1f), 0x14000003, ucast tgt, ucast (drop_bit 32 tgt)]"
        unfolding S_def using True out ldr_literal_mem_nop [of s0 i idx tgt]
        by (simp add: s0_def)
      have c: "ins (dat (ctx S') ! unat idx) = outp s + 4"
        using True idx out
        by (simp add: S'_def S_def s0_def ldr_literal_sel process_fix_map_ins reset_current_ins_ins)
      have e: "outp S' = outp s + 20"
        using True out by (simp add: io S_def s0_def ldr_literal_sel)
      show ?thesis
        using run m c e io(1) fr out nop_align(3) [OF aligned True]
        by (simp add: o keep add.commute)
    next
      case False
      then have o: "out1 = outp s"
        by (simp add: out1_def)
      have m: "map (mem S) [outp s, outp s + 4, outp s + 8, outp s + 12] =
         [0x58000040 OR (i AND 0x1f), 0x14000003, ucast tgt, ucast (drop_bit 32 tgt)]"
        unfolding S_def using False out ldr_literal_mem_plain [of s0 i idx tgt]
        by (simp add: s0_def)
      have c: "ins (dat (ctx S') ! unat idx) = outp s"
        using False idx out
        by (simp add: S'_def S_def s0_def ldr_literal_sel process_fix_map_ins reset_current_ins_ins)
      have e: "outp S' = outp s + 16"
        using False out by (simp add: io S_def s0_def ldr_literal_sel)
      show ?thesis
        using run m c e io(1) fr out False
        by (simp add: o keep add.commute)
    qed
  qed
qed

theorem adrp_rewrite_witness:
  "mem adrp_state (inp adrp_state) AND 0x9f000000 = op_adrp \<and>
   unat (get_ref_ins_index (ctx adrp_state) (inp adrp_state)) < length (dat (ctx adrp_state)) \<and>
   outp adrp_state AND 3 = 0 \<and>
   \<not> is_in_fixing_range (ctx adrp_state) (adrp_target (inp adrp_state) (mem adrp_state (inp adrp_state))) \<and>
   (\<exists>s'. fix_pcreladdr adrp_state = Some (True, s') \<and>
      map (mem s') [0x80000004, 0x80000008, 0x8000000c, 0x80000010, 0x80000014] =
        [A64_NOP, 0x58000040, 0x14000003, 0x10001000, 0] \<and>
      outp s' = 0x80000018)"
proof -
  have h1: "mem adrp_state (inp adrp_state) AND 0x9f000000 = op_adrp"
    by code_simp
  have h2: "unat (get_ref_ins_index (ctx adrp_state) (inp adrp_state)) < length (dat (ctx adrp_state))"
    by code_simp
  have h3: "outp adrp_state AND 3 = 0"
    by code_simp
  have z: "get_ref_ins_index (ctx adrp_state) (inp adrp_state) = 0"
    by code_simp
  have h4: "\<forall>k<5. outp adrp_state + 4 * of_nat k \<notin>
              bp ` set (fmap (dat (ctx adrp_state) !
                unat (get_ref_ins_index (ctx adrp_state) (inp adrp_state))))"
    unfolding z by (simp add: adrp_state_def empty_fmap_frame all_less_5)
  have w: "\<not> is_in_fixing_range (ctx adrp_state) (adrp_target (inp adrp_state) (mem adrp_state (inp adrp_state)))"
    by code_simp
  have t: "adrp_target (inp adrp_state) (mem adrp_state (inp adrp_state)) = 0x10001000"
    by code_simp
  have o: "outp adrp_state = 0x80000004" "mem adrp_state (inp adrp_state) = 0xb0000000"
    by code_simp+
  from adrp_rewrite [of adrp_state, OF h1 h2 h3 h4] h1 h2 h3 w
  show ?thesis unfolding t unfolding o by auto
qed

text \<open>
  C8 at the failing input: \<open>ADRP X3\<close> with immediate \<open>-1\<close> at \<open>0x10000000\<close>, relocated to
  \<open>0x80000000\<close>. Its page base is \<open>0x0ffff000\<close>, outside the window, so the literal of the
  load that replaces it should hold \<open>0x0ffff000\<close>. The code shifts the immediate as a
  32-bit unsigned value and adds it zero-extended: it computes \<open>0x10ffff000\<close>, too high by
  \<open>2^32\<close>, and writes that as the literal (low word \<open>0x0ffff000\<close>, high word \<open>1\<close>).
\<close>

theorem adrp_negative_immediate_zero_extended:
  "mem adrp_neg_state (inp adrp_neg_state) AND 0x9f000000 = op_adrp \<and>
   adrp_imm (mem adrp_neg_state (inp adrp_neg_state)) = - 1 \<and>
   adrp_documented_target (inp adrp_neg_state) (mem adrp_neg_state (inp adrp_neg_state)) = 0x0ffff000 \<and>
   adrp_target (inp adrp_neg_state) (mem adrp_neg_state (inp adrp_neg_state)) = 0x10ffff000 \<and>
   \<not> is_in_fixing_range (ctx adrp_neg_state) 0x0ffff000 \<and>
   \<not> is_in_fixing_range (ctx adrp_neg_state) 0x10ffff000 \<and>
   map_option (\<lambda>(h, s'). (h, outp s' - outp adrp_neg_state,
                 map (mem s') [0x80000000, 0x80000004, 0x80000008, 0x8000000c]))
     (fix_pcreladdr adrp_neg_state) = Some (True, 16, [0x58000043, 0x14000003, 0x0ffff000, 0x00000001])"
  by code_simp

section \<open>The cursor advance of one rewriter call\<close>

text \<open>
  C9. In a window of \<open>n\<close> instructions, for the instruction at a valid index and a
  4-aligned output cursor, each of the four rewriters returns, and either declines the
  instruction (\<open>false\<close>, the state as it was) or handles it and moves the output cursor
  by \<open>k\<close> words: \<open>1 \<le> k \<le> 6\<close> for \<open>__fix_branch_imm\<close>, \<open>1 \<le> k \<le> 7\<close> for
  \<open>__fix_cond_comp_test_branch\<close>, \<open>1 \<le> k \<le> 5\<close> for \<open>__fix_pcreladdr\<close>, and \<open>k \<le> 9\<close> for
  \<open>__fix_loadlit\<close>, where \<open>k = 0\<close> exactly for PRFM (literal), which is dropped.
\<close>

theorem rewriter_cursor_advance:
  assumes w: "window_ok (ctx s) n"
    and i: "unat (get_ref_ins_index (ctx s) (inp s)) < n"
    and al: "outp s AND 3 = 0"
  shows "(fix_branch_imm s = Some (False, s) \<or>
          (\<exists>s' k. fix_branch_imm s = Some (True, s') \<and> 1 \<le> k \<and> k \<le> 6 \<and>
                  outp s' = outp s + 4 * of_nat k)) \<and>
         (fix_cond_comp_test_branch s = Some (False, s) \<or>
          (\<exists>s' k. fix_cond_comp_test_branch s = Some (True, s') \<and> 1 \<le> k \<and> k \<le> 7 \<and>
                  outp s' = outp s + 4 * of_nat k)) \<and>
         (fix_loadlit s = Some (False, s) \<or>
          (\<exists>s' k. fix_loadlit s = Some (True, s') \<and> k \<le> 9 \<and>
                  (k = 0) = (mem s (inp s) AND 0xff000000 = 0xd8000000) \<and>
                  outp s' = outp s + 4 * of_nat k)) \<and>
         (fix_pcreladdr s = Some (False, s) \<or>
          (\<exists>s' k. fix_pcreladdr s = Some (True, s') \<and> 1 \<le> k \<and> k \<le> 5 \<and>
                  outp s' = outp s + 4 * of_nat k))"
proof -
  have a: "fix_branch_imm s = Some (False, s) \<or>
          (\<exists>s' k. fix_branch_imm s = Some (True, s') \<and> 1 \<le> k \<and> k \<le> 6 \<and>
                  outp s' = outp s + 4 * of_nat k)"
    using fix_branch_imm_ok [OF w i] unfolding stepped_def by blast
  have b: "fix_cond_comp_test_branch s = Some (False, s) \<or>
          (\<exists>s' k. fix_cond_comp_test_branch s = Some (True, s') \<and> 1 \<le> k \<and> k \<le> 7 \<and>
                  outp s' = outp s + 4 * of_nat k)"
    using fix_cond_comp_test_branch_ok [OF w i] unfolding stepped_def by blast
  have d: "fix_pcreladdr s = Some (False, s) \<or>
          (\<exists>s' k. fix_pcreladdr s = Some (True, s') \<and> 1 \<le> k \<and> k \<le> 5 \<and>
                  outp s' = outp s + 4 * of_nat k)"
    using fix_pcreladdr_ok [OF w i] unfolding stepped_def by blast
  have c: "fix_loadlit s = Some (False, s) \<or>
          (\<exists>s' k. fix_loadlit s = Some (True, s') \<and> k \<le> 9 \<and>
                  (k = 0) = (mem s (inp s) AND 0xff000000 = 0xd8000000) \<and>
                  outp s' = outp s + 4 * of_nat k)"
  proof (cases "mem s (inp s) AND 0xff000000 = 0xd8000000")
    case True
    with fix_loadlit_ok [OF w i al] show ?thesis
      unfolding stepped_def by (auto split: if_splits)
  next
    case False
    with fix_loadlit_ok [OF w i al]
    have "fix_loadlit s = Some (False, s) \<or>
          (\<exists>s' k. fix_loadlit s = Some (True, s') \<and> 1 \<le> k \<and> k \<le> 9 \<and>
                  outp s' = outp s + 4 * of_nat k)"
      unfolding stepped_def by (simp split: if_splits) blast
    with False show ?thesis by force
  qed
  from a b c d show ?thesis by (intro conjI)
qed

theorem rewriter_cursor_advance_witness:
  "window_ok (ctx ldrq_state) 1 \<and>
   unat (get_ref_ins_index (ctx ldrq_state) (inp ldrq_state)) < 1 \<and>
   outp ldrq_state AND 3 = 0 \<and>
   fix_branch_imm ldrq_state = Some (False, ldrq_state) \<and>
   fix_cond_comp_test_branch ldrq_state = Some (False, ldrq_state) \<and>
   (\<exists>s' k. fix_loadlit ldrq_state = Some (True, s') \<and> k \<le> 9 \<and> k \<noteq> 0 \<and>
           outp s' = outp ldrq_state + 4 * of_nat k) \<and>
   fix_pcreladdr ldrq_state = Some (False, ldrq_state)"
proof -
  have h1: "window_ok (ctx ldrq_state) 1"
    unfolding window_ok_def by code_simp
  have h2: "unat (get_ref_ins_index (ctx ldrq_state) (inp ldrq_state)) < 1"
    by code_simp
  have h3: "outp ldrq_state AND 3 = 0"
    by code_simp
  have h4: "fix_loadlit ldrq_state \<noteq> Some (False, ldrq_state)"
    by code_simp
  have h5: "mem ldrq_state (inp ldrq_state) AND 0xff000000 \<noteq> 0xd8000000"
    by code_simp
  have h6: "fix_branch_imm ldrq_state = Some (False, ldrq_state)"
    by code_simp
  have h7: "fix_cond_comp_test_branch ldrq_state = Some (False, ldrq_state)"
    by code_simp
  have h8: "fix_pcreladdr ldrq_state = Some (False, ldrq_state)"
    by code_simp
  from rewriter_cursor_advance [of ldrq_state 1, OF h1 h2 h3] h1 h2 h3 h4 h5 h6 h7 h8
  show ?thesis by blast
qed

text \<open>
  The claim as the specification states it, between 1 and 6 words for every rewriter
  call, fails for \<open>__fix_loadlit\<close> at both ends: PRFM (literal) leaves the cursor where it
  was, and \<open>LDR Q0, literal\<close> with the cursor 12 bytes after a 16-byte boundary takes three
  NOPs, two instructions and the four words of the literal, 36 bytes.
\<close>

theorem loadlit_cursor_zero_and_nine:
  "map_option (\<lambda>(h, s'). (h, outp s' - outp prfm_state)) (fix_loadlit prfm_state) = Some (True, 0) \<and>
   map_option (\<lambda>(h, s'). (h, outp s' - outp ldrq_state)) (fix_loadlit ldrq_state) = Some (True, 36)"
  by code_simp

section \<open>Deferred fix-ups\<close>




end
